theory Spec2Isabelle
  imports Complex_Main "HOL-Library.Multiset" "HOL-Library.Sublist"
begin

chapter \<open>Session telemetry and hierarchy aggregation: a shallow embedding\<close>

text \<open>
  The three server modules \<^verbatim>\<open>MetricsCollector.ts\<close>, \<^verbatim>\<open>TmuxDiscovery.ts\<close> and
  \<^verbatim>\<open>AgentHierarchy.ts\<close> are translated function by function.  Conventions:
  \<^item> a JavaScript \<^verbatim>\<open>number\<close> holding a measurement (a duration, a token count, a price)
    is a \<^typ>\<open>real\<close>: the arithmetic is the exact one, without the rounding, the
    infinities and the NaN of IEEE doubles (a second model of \<^verbatim>\<open>MetricsCollector.ts\<close>,
    in its own section, keeps the infinities and NaN); a counter that only ever is
    incremented from zero is a \<^typ>\<open>nat\<close>, a timestamp of \<^verbatim>\<open>Date.now()\<close> and a
    process id are \<^typ>\<open>int\<close>;
  \<^item> \<^verbatim>\<open>Date.now()\<close> is a parameter of every operation that reads the clock;
  \<^item> a \<^verbatim>\<open>Map<string, V>\<close> is a map \<open>string \<rightharpoonup> V\<close>, a \<^verbatim>\<open>Set<string>\<close> is the
    list of its members in insertion order (without duplicates);
  \<^item> a loop that the source does not bound is a \<^theory_text>\<open>partial_function (option)\<close>:
    \<open>None\<close> is the call that never returns.
\<close>

section \<open>MetricsCollector.ts\<close>

record ToolUseData =
  tool :: string
  duration :: real
  success :: bool
  inputTokens :: "real option"
  outputTokens :: "real option"

record SessionMetrics =
  inputTokens :: real
  outputTokens :: real
  durations :: "real list"
  errorCount :: nat
  totalCount :: nat
  toolCounts :: "string \<rightharpoonup> nat"
  startTime :: int

text \<open>
  The object \<^verbatim>\<open>tokens: { input, output, total, cost }\<close> of a snapshot; the fields carry
  the prefix \<open>tokens_\<close>, since \<open>output\<close> is a keyword here.
\<close>

record TokenStats =
  tokens_input :: real
  tokens_output :: real
  tokens_total :: real
  tokens_cost :: real

record LatencyStats =
  avg :: real
  p95 :: real
  p99 :: real

record MetricsData =
  tokens :: TokenStats
  latency :: LatencyStats
  errorRate :: real
  toolCounts :: "string \<rightharpoonup> nat"
  duration :: int

record MetricsCollector =
  sessions :: "string \<rightharpoonup> SessionMetrics"

definition INPUT_TOKEN_PRICE :: real where
  "INPUT_TOKEN_PRICE = 3 / 1000000"

definition OUTPUT_TOKEN_PRICE :: real where
  "OUTPUT_TOKEN_PRICE = 15 / 1000000"

text \<open>
  \<^verbatim>\<open>percentile(values, p)\<close>: the copy of the array sorted ascending by the comparator
  \<^verbatim>\<open>(a, b) => a - b\<close>, \<^verbatim>\<open>Math.ceil\<close> as the ceiling, the index clamped by
  \<^verbatim>\<open>Math.min(Math.max(rank - 1, 0), sorted.length - 1)\<close>.
\<close>

definition percentile :: "real list \<Rightarrow> real \<Rightarrow> real" where
  "percentile values p =
     (if length values = 0 then 0
      else
        let sorted = sort values;
            rank = \<lceil>(p / 100) * real (length sorted)\<rceil>;
            index = min (max (rank - 1) 0) (int (length sorted) - 1)
        in sorted ! nat index)"

definition new_MetricsCollector :: MetricsCollector where
  "new_MetricsCollector = \<lparr> sessions = Map.empty \<rparr>"

text \<open>
  \<^verbatim>\<open>recordToolUse\<close>.  The guards \<^verbatim>\<open>if (data.inputTokens)\<close> and
  \<^verbatim>\<open>if (data.outputTokens)\<close> test truthiness: an absent value and the value 0 both skip
  the addition.  The tool histogram \<^verbatim>\<open>toolCounts\<close> is read with \<^verbatim>\<open>|| 0\<close>: a missing
  entry counts as 0 (tool names that collide with a property every object inherits,
  such as \<^verbatim>\<open>toString\<close>, are outside the model).
\<close>

definition recordToolUse :: "MetricsCollector \<Rightarrow> string \<Rightarrow> int \<Rightarrow> ToolUseData \<Rightarrow> MetricsCollector" where
  "recordToolUse c sessionId now data =
     (let session0 = (case sessions c sessionId of
                        Some s \<Rightarrow> s
                      | None \<Rightarrow> \<lparr> SessionMetrics.inputTokens = 0, outputTokens = 0, durations = [],
                                  errorCount = 0, totalCount = 0, toolCounts = Map.empty,
                                  startTime = now \<rparr>);
          session1 = (case ToolUseData.inputTokens data of
                        Some v \<Rightarrow> if v \<noteq> 0
                                  then session0 \<lparr> SessionMetrics.inputTokens := SessionMetrics.inputTokens session0 + v \<rparr>
                                  else session0
                      | None \<Rightarrow> session0);
          session2 = (case ToolUseData.outputTokens data of
                        Some v \<Rightarrow> if v \<noteq> 0
                                  then session1 \<lparr> SessionMetrics.outputTokens := SessionMetrics.outputTokens session1 + v \<rparr>
                                  else session1
                      | None \<Rightarrow> session1);
          session3 = session2 \<lparr> durations := durations session2 @ [ToolUseData.duration data] \<rparr>;
          session4 = session3 \<lparr> totalCount := totalCount session3 + 1 \<rparr>;
          session5 = (if \<not> success data then session4 \<lparr> errorCount := errorCount session4 + 1 \<rparr>
                      else session4);
          session6 = session5 \<lparr> SessionMetrics.toolCounts :=
                        (SessionMetrics.toolCounts session5)
                          (tool data \<mapsto> (case SessionMetrics.toolCounts session5 (tool data) of
                                            Some n \<Rightarrow> n | None \<Rightarrow> 0) + 1) \<rparr>
      in c \<lparr> sessions := (sessions c)(sessionId \<mapsto> session6) \<rparr>)"

definition empty_MetricsData :: MetricsData where
  "empty_MetricsData =
     \<lparr> tokens = \<lparr> tokens_input = 0, tokens_output = 0, tokens_total = 0, tokens_cost = 0 \<rparr>,
       latency = \<lparr> avg = 0, p95 = 0, p99 = 0 \<rparr>,
       errorRate = 0,
       toolCounts = Map.empty,
       duration = 0 \<rparr>"

definition getMetrics :: "MetricsCollector \<Rightarrow> string \<Rightarrow> int \<Rightarrow> MetricsData" where
  "getMetrics c sessionId now =
     (case sessions c sessionId of
        None \<Rightarrow> empty_MetricsData
      | Some session \<Rightarrow>
          let totalTokens = SessionMetrics.inputTokens session + SessionMetrics.outputTokens session;
              cost' = SessionMetrics.inputTokens session * INPUT_TOKEN_PRICE
                      + SessionMetrics.outputTokens session * OUTPUT_TOKEN_PRICE;
              ds = durations session;
              avg' = (if length ds > 0 then foldl (+) 0 ds / real (length ds) else 0);
              errorRate' = (if totalCount session > 0
                            then (real (errorCount session) / real (totalCount session)) * 100
                            else 0)
          in \<lparr> tokens = \<lparr> tokens_input = SessionMetrics.inputTokens session,
                          tokens_output = SessionMetrics.outputTokens session,
                          tokens_total = totalTokens, tokens_cost = cost' \<rparr>,
               latency = \<lparr> avg = avg', p95 = percentile ds 95, p99 = percentile ds 99 \<rparr>,
               errorRate = errorRate',
               toolCounts = SessionMetrics.toolCounts session,
               duration = now - startTime session \<rparr>)"

definition getAllMetrics :: "MetricsCollector \<Rightarrow> int \<Rightarrow> (string \<rightharpoonup> MetricsData)" where
  "getAllMetrics c now =
     (\<lambda>sessionId. case sessions c sessionId of
                     None \<Rightarrow> None
                   | Some _ \<Rightarrow> Some (getMetrics c sessionId now))"

definition clearSession :: "MetricsCollector \<Rightarrow> string \<Rightarrow> MetricsCollector" where
  "clearSession c sessionId = c \<lparr> sessions := (sessions c)(sessionId := None) \<rparr>"

definition clearAll :: "MetricsCollector \<Rightarrow> MetricsCollector" where
  "clearAll c = c \<lparr> sessions := Map.empty \<rparr>"

text \<open>The calls a client can make on a collector, and a run of them from the left.\<close>

datatype collector_call =
    RecordToolUse string int ToolUseData
  | ClearSession string
  | ClearAll

fun apply_call :: "MetricsCollector \<Rightarrow> collector_call \<Rightarrow> MetricsCollector" where
  "apply_call c (RecordToolUse sessionId now data) = recordToolUse c sessionId now data"
| "apply_call c (ClearSession sessionId) = clearSession c sessionId"
| "apply_call c ClearAll = clearAll c"

definition run_calls :: "MetricsCollector \<Rightarrow> collector_call list \<Rightarrow> MetricsCollector" where
  "run_calls c calls = foldl apply_call c calls"

fun records_for :: "string \<Rightarrow> collector_call \<Rightarrow> bool" where
  "records_for sid (RecordToolUse sessionId now data) = (sessionId = sid)"
| "records_for sid (ClearSession sessionId) = False"
| "records_for sid ClearAll = False"


subsection \<open>The words of the specification, for comparison\<close>



text \<open>What an optional token count supplies to a sum: its value when present, 0 when absent.\<close>

definition supplied :: "real option \<Rightarrow> real" where
  "supplied v = (case v of None \<Rightarrow> 0 | Some x \<Rightarrow> x)"


text \<open>
  The entry \<^verbatim>\<open>recordToolUse\<close> creates for a session it has not seen, and the effect of one
  call on a session's entry, in closed form (used in the proofs only).
\<close>

definition fresh_session :: "int \<Rightarrow> SessionMetrics" where
  "fresh_session now =
     \<lparr> SessionMetrics.inputTokens = 0, outputTokens = 0, durations = [],
       errorCount = 0, totalCount = 0, toolCounts = Map.empty, startTime = now \<rparr>"

definition folded :: "SessionMetrics \<Rightarrow> ToolUseData \<Rightarrow> SessionMetrics" where
  "folded s d =
     s \<lparr> SessionMetrics.inputTokens := SessionMetrics.inputTokens s + supplied (ToolUseData.inputTokens d),
         SessionMetrics.outputTokens := SessionMetrics.outputTokens s + supplied (ToolUseData.outputTokens d),
         durations := durations s @ [ToolUseData.duration d],
         totalCount := totalCount s + 1,
         errorCount := errorCount s + (if success d then 0 else 1),
         SessionMetrics.toolCounts := (SessionMetrics.toolCounts s)
           (tool d \<mapsto> (case SessionMetrics.toolCounts s (tool d) of Some n \<Rightarrow> n | None \<Rightarrow> 0) + 1) \<rparr>"


section \<open>MetricsCollector.ts over numbers with NaN and the infinities\<close>

text \<open>
  \<^verbatim>\<open>recordToolUse\<close> stores the \<^verbatim>\<open>duration\<close> and adds the token counts of its argument
  as they come: the source validates none of them, so every value of a JavaScript
  \<^verbatim>\<open>number\<close> can reach the state, NaN and the two infinities among them.  The model
  above reads a number as a real and has neither.  This section is a second model of the
  same functions, in which a number is a finite real, an infinity or NaN; its names are
  those of the source with \<open>_n\<close> appended.  It still leaves out the rounding of the finite
  arithmetic, the overflow of a finite result to an infinity and the sign of zero: none of
  them changes the outcome of a comparison of two numbers or the sign of their difference,
  which is all that the sort and the order of two percentiles depend on.  On finite
  numbers the two models agree (lemmas \<open>recordToolUse_n_finite\<close> and \<open>getMetrics_n_finite\<close>).
\<close>

datatype number = Finite real | Infinity | MinusInfinity | NaN

text \<open>
  The operators \<^verbatim>\<open>+\<close>, unary \<^verbatim>\<open>-\<close>, binary \<^verbatim>\<open>-\<close>, \<^verbatim>\<open>*\<close> and \<^verbatim>\<open>/\<close>: a NaN operand
  gives NaN, and so do the sum of the two infinities, the product of zero and an infinity,
  the quotient of two infinities and zero divided by zero.  A zero divisor is read as +0.
\<close>

fun number_plus :: "number \<Rightarrow> number \<Rightarrow> number" where
  "number_plus (Finite x) (Finite y) = Finite (x + y)"
| "number_plus NaN b = NaN"
| "number_plus a NaN = NaN"
| "number_plus Infinity MinusInfinity = NaN"
| "number_plus MinusInfinity Infinity = NaN"
| "number_plus Infinity b = Infinity"
| "number_plus a Infinity = Infinity"
| "number_plus MinusInfinity b = MinusInfinity"
| "number_plus a MinusInfinity = MinusInfinity"

fun number_negate :: "number \<Rightarrow> number" where
  "number_negate (Finite x) = Finite (- x)"
| "number_negate Infinity = MinusInfinity"
| "number_negate MinusInfinity = Infinity"
| "number_negate NaN = NaN"

definition number_minus :: "number \<Rightarrow> number \<Rightarrow> number" where
  "number_minus a b = number_plus a (number_negate b)"

fun number_times :: "number \<Rightarrow> number \<Rightarrow> number" where
  "number_times (Finite x) (Finite y) = Finite (x * y)"
| "number_times NaN b = NaN"
| "number_times a NaN = NaN"
| "number_times Infinity (Finite y) =
     (if 0 < y then Infinity else if y < 0 then MinusInfinity else NaN)"
| "number_times MinusInfinity (Finite y) =
     (if 0 < y then MinusInfinity else if y < 0 then Infinity else NaN)"
| "number_times (Finite x) Infinity =
     (if 0 < x then Infinity else if x < 0 then MinusInfinity else NaN)"
| "number_times (Finite x) MinusInfinity =
     (if 0 < x then MinusInfinity else if x < 0 then Infinity else NaN)"
| "number_times Infinity Infinity = Infinity"
| "number_times Infinity MinusInfinity = MinusInfinity"
| "number_times MinusInfinity Infinity = MinusInfinity"
| "number_times MinusInfinity MinusInfinity = Infinity"

fun number_divide :: "number \<Rightarrow> number \<Rightarrow> number" where
  "number_divide (Finite x) (Finite y) =
     (if y = 0 then (if 0 < x then Infinity else if x < 0 then MinusInfinity else NaN)
      else Finite (x / y))"
| "number_divide NaN b = NaN"
| "number_divide a NaN = NaN"
| "number_divide (Finite x) Infinity = Finite 0"
| "number_divide (Finite x) MinusInfinity = Finite 0"
| "number_divide Infinity (Finite y) = (if y < 0 then MinusInfinity else Infinity)"
| "number_divide MinusInfinity (Finite y) = (if y < 0 then Infinity else MinusInfinity)"
| "number_divide Infinity Infinity = NaN"
| "number_divide Infinity MinusInfinity = NaN"
| "number_divide MinusInfinity Infinity = NaN"
| "number_divide MinusInfinity MinusInfinity = NaN"

text \<open>
  The comparisons \<^verbatim>\<open>a <= b\<close>, \<^verbatim>\<open>v > 0\<close> and \<^verbatim>\<open>a == b\<close> (on two numbers the same as
  \<^verbatim>\<open>a === b\<close>): each is false as soon as an operand is NaN, so NaN is not even equal to
  itself.
\<close>

fun number_le :: "number \<Rightarrow> number \<Rightarrow> bool" where
  "number_le (Finite x) (Finite y) = (x \<le> y)"
| "number_le NaN b = False"
| "number_le a NaN = False"
| "number_le MinusInfinity b = True"
| "number_le a Infinity = True"
| "number_le Infinity b = False"
| "number_le a MinusInfinity = False"

fun number_positive :: "number \<Rightarrow> bool" where
  "number_positive (Finite x) = (0 < x)"
| "number_positive Infinity = True"
| "number_positive MinusInfinity = False"
| "number_positive NaN = False"

definition number_eq :: "number \<Rightarrow> number \<Rightarrow> bool" where
  "number_eq a b = (a = b \<and> a \<noteq> NaN)"

text \<open>The truthiness of a number, as \<^verbatim>\<open>if (data.inputTokens)\<close> tests it: 0 and NaN are falsy.\<close>

definition truthy :: "number \<Rightarrow> bool" where
  "truthy v = (v \<noteq> NaN \<and> v \<noteq> Finite 0)"

text \<open>
  \<^verbatim>\<open>[...values].sort((a, b) => a - b)\<close>.  The language applies the comparator through
  its operation \<open>SortCompare\<close>, which takes a result NaN for +0.  When the comparator is
  consistent, and on an array without NaN it is, the language fixes the result: the
  elements in ascending order, equal ones in the order of the array.  With a NaN among
  several elements the comparator is not consistent, and the order is left to the
  implementation.  \<open>Array_sort\<close> is an insertion sort that moves an element behind another
  only when their comparison is positive: it yields the order that the language fixes
  where it fixes one, and otherwise one of the orders it admits, on which no statement
  below depends.  An array of one element is returned as it is, whatever the element.
\<close>

definition comparefn :: "number \<Rightarrow> number \<Rightarrow> number" where
  "comparefn a b = number_minus a b"

definition SortCompare :: "number \<Rightarrow> number \<Rightarrow> number" where
  "SortCompare x y = (let v = comparefn x y in if v = NaN then Finite 0 else v)"

fun sort_insert :: "number \<Rightarrow> number list \<Rightarrow> number list" where
  "sort_insert x [] = [x]"
| "sort_insert x (y # ys) =
     (if number_positive (SortCompare x y) then y # sort_insert x ys else x # y # ys)"

definition Array_sort :: "number list \<Rightarrow> number list" where
  "Array_sort values = foldr sort_insert values []"

text \<open>\<^verbatim>\<open>percentile(values, p)\<close>, as above, on the copy sorted by \<^const>\<open>Array_sort\<close>.\<close>

definition percentile_n :: "number list \<Rightarrow> real \<Rightarrow> number" where
  "percentile_n values p =
     (if length values = 0 then Finite 0
      else
        let sorted = Array_sort values;
            rank = \<lceil>(p / 100) * real (length sorted)\<rceil>;
            index = min (max (rank - 1) 0) (int (length sorted) - 1)
        in sorted ! nat index)"

text \<open>
  The records of the state and of the snapshot.  A counter is a \<^typ>\<open>nat\<close> and a timestamp
  an \<^typ>\<open>int\<close> as before; every other number is a \<^typ>\<open>number\<close>.
\<close>

record ToolUseData_n =
  tool_n :: string
  duration_n :: number
  success_n :: bool
  inputTokens_n :: "number option"
  outputTokens_n :: "number option"

record SessionMetrics_n =
  inputTokens_n :: number
  outputTokens_n :: number
  durations_n :: "number list"
  errorCount_n :: nat
  totalCount_n :: nat
  toolCounts_n :: "string \<rightharpoonup> nat"
  startTime_n :: int

record TokenStats_n =
  tokens_input_n :: number
  tokens_output_n :: number
  tokens_total_n :: number
  tokens_cost_n :: number

record LatencyStats_n =
  avg_n :: number
  p95_n :: number
  p99_n :: number

record MetricsData_n =
  tokens_n :: TokenStats_n
  latency_n :: LatencyStats_n
  errorRate_n :: number
  toolCounts_n :: "string \<rightharpoonup> nat"
  duration_n :: int

record MetricsCollector_n =
  sessions_n :: "string \<rightharpoonup> SessionMetrics_n"

definition new_MetricsCollector_n :: MetricsCollector_n where
  "new_MetricsCollector_n = \<lparr> sessions_n = Map.empty \<rparr>"

definition recordToolUse_n :: "MetricsCollector_n \<Rightarrow> string \<Rightarrow> int \<Rightarrow> ToolUseData_n \<Rightarrow> MetricsCollector_n" where
  "recordToolUse_n c sessionId now data =
     (let session0 = (case sessions_n c sessionId of
                        Some s \<Rightarrow> s
                      | None \<Rightarrow> \<lparr> SessionMetrics_n.inputTokens_n = Finite 0, outputTokens_n = Finite 0,
                                  durations_n = [], errorCount_n = 0, totalCount_n = 0,
                                  toolCounts_n = Map.empty, startTime_n = now \<rparr>);
          session1 = (case ToolUseData_n.inputTokens_n data of
                        Some v \<Rightarrow> if truthy v
                                  then session0 \<lparr> SessionMetrics_n.inputTokens_n :=
                                         number_plus (SessionMetrics_n.inputTokens_n session0) v \<rparr>
                                  else session0
                      | None \<Rightarrow> session0);
          session2 = (case ToolUseData_n.outputTokens_n data of
                        Some v \<Rightarrow> if truthy v
                                  then session1 \<lparr> SessionMetrics_n.outputTokens_n :=
                                         number_plus (SessionMetrics_n.outputTokens_n session1) v \<rparr>
                                  else session1
                      | None \<Rightarrow> session1);
          session3 = session2 \<lparr> durations_n := durations_n session2 @ [ToolUseData_n.duration_n data] \<rparr>;
          session4 = session3 \<lparr> totalCount_n := totalCount_n session3 + 1 \<rparr>;
          session5 = (if \<not> success_n data then session4 \<lparr> errorCount_n := errorCount_n session4 + 1 \<rparr>
                      else session4);
          session6 = session5 \<lparr> SessionMetrics_n.toolCounts_n :=
                        (SessionMetrics_n.toolCounts_n session5)
                          (tool_n data \<mapsto> (case SessionMetrics_n.toolCounts_n session5 (tool_n data) of
                                              Some n \<Rightarrow> n | None \<Rightarrow> 0) + 1) \<rparr>
      in c \<lparr> sessions_n := (sessions_n c)(sessionId \<mapsto> session6) \<rparr>)"

definition empty_MetricsData_n :: MetricsData_n where
  "empty_MetricsData_n =
     \<lparr> tokens_n = \<lparr> tokens_input_n = Finite 0, tokens_output_n = Finite 0,
                    tokens_total_n = Finite 0, tokens_cost_n = Finite 0 \<rparr>,
       latency_n = \<lparr> avg_n = Finite 0, p95_n = Finite 0, p99_n = Finite 0 \<rparr>,
       errorRate_n = Finite 0,
       toolCounts_n = Map.empty,
       duration_n = 0 \<rparr>"

definition getMetrics_n :: "MetricsCollector_n \<Rightarrow> string \<Rightarrow> int \<Rightarrow> MetricsData_n" where
  "getMetrics_n c sessionId now =
     (case sessions_n c sessionId of
        None \<Rightarrow> empty_MetricsData_n
      | Some session \<Rightarrow>
          let totalTokens = number_plus (SessionMetrics_n.inputTokens_n session)
                                        (SessionMetrics_n.outputTokens_n session);
              cost' = number_plus
                        (number_times (SessionMetrics_n.inputTokens_n session) (Finite INPUT_TOKEN_PRICE))
                        (number_times (SessionMetrics_n.outputTokens_n session) (Finite OUTPUT_TOKEN_PRICE));
              ds = durations_n session;
              avg' = (if length ds > 0
                      then number_divide (foldl number_plus (Finite 0) ds) (Finite (real (length ds)))
                      else Finite 0);
              errorRate' = (if totalCount_n session > 0
                            then Finite ((real (errorCount_n session) / real (totalCount_n session)) * 100)
                            else Finite 0)
          in \<lparr> tokens_n = \<lparr> tokens_input_n = SessionMetrics_n.inputTokens_n session,
                            tokens_output_n = SessionMetrics_n.outputTokens_n session,
                            tokens_total_n = totalTokens, tokens_cost_n = cost' \<rparr>,
               latency_n = \<lparr> avg_n = avg', p95_n = percentile_n ds 95, p99_n = percentile_n ds 99 \<rparr>,
               errorRate_n = errorRate',
               toolCounts_n = SessionMetrics_n.toolCounts_n session,
               duration_n = now - startTime_n session \<rparr>)"

text \<open>The first model inside the second: a real is the finite number of that value.\<close>

definition finite_data :: "ToolUseData \<Rightarrow> ToolUseData_n" where
  "finite_data d =
     \<lparr> tool_n = tool d, duration_n = Finite (ToolUseData.duration d), success_n = success d,
       inputTokens_n = map_option Finite (ToolUseData.inputTokens d),
       outputTokens_n = map_option Finite (ToolUseData.outputTokens d) \<rparr>"

definition finite_session :: "SessionMetrics \<Rightarrow> SessionMetrics_n" where
  "finite_session s =
     \<lparr> SessionMetrics_n.inputTokens_n = Finite (SessionMetrics.inputTokens s),
       outputTokens_n = Finite (SessionMetrics.outputTokens s),
       durations_n = map Finite (durations s),
       errorCount_n = errorCount s, totalCount_n = totalCount s,
       toolCounts_n = SessionMetrics.toolCounts s, startTime_n = startTime s \<rparr>"

definition finite_collector :: "MetricsCollector \<Rightarrow> MetricsCollector_n" where
  "finite_collector c = \<lparr> sessions_n = (\<lambda>sessionId. map_option finite_session (sessions c sessionId)) \<rparr>"

definition finite_metrics :: "MetricsData \<Rightarrow> MetricsData_n" where
  "finite_metrics m =
     \<lparr> tokens_n = \<lparr> tokens_input_n = Finite (tokens_input (tokens m)),
                    tokens_output_n = Finite (tokens_output (tokens m)),
                    tokens_total_n = Finite (tokens_total (tokens m)),
                    tokens_cost_n = Finite (tokens_cost (tokens m)) \<rparr>,
       latency_n = \<lparr> avg_n = Finite (avg (latency m)), p95_n = Finite (p95 (latency m)),
                     p99_n = Finite (p99 (latency m)) \<rparr>,
       errorRate_n = Finite (errorRate m),
       toolCounts_n = MetricsData.toolCounts m,
       duration_n = MetricsData.duration m \<rparr>"

text \<open>
  Two histories of one session: a single tool use whose duration is NaN, and three tool
  uses of 300 ms, of an infinite duration and of 100 ms.
\<close>

definition NaN_use :: MetricsCollector_n where
  "NaN_use = recordToolUse_n new_MetricsCollector_n ''session1'' 10
        \<lparr> tool_n = ''Read'', duration_n = NaN, success_n = True,
          inputTokens_n = None, outputTokens_n = None \<rparr>"

definition unbounded_uses :: MetricsCollector_n where
  "unbounded_uses =
     recordToolUse_n
       (recordToolUse_n
          (recordToolUse_n new_MetricsCollector_n ''session1'' 10
             \<lparr> tool_n = ''Read'', duration_n = Finite 300, success_n = True,
               inputTokens_n = None, outputTokens_n = None \<rparr>)
          ''session1'' 20
          \<lparr> tool_n = ''Read'', duration_n = Infinity, success_n = True,
            inputTokens_n = None, outputTokens_n = None \<rparr>)
       ''session1'' 30
       \<lparr> tool_n = ''Read'', duration_n = Finite 100, success_n = True,
         inputTokens_n = None, outputTokens_n = None \<rparr>"

section \<open>TmuxDiscovery.ts\<close>

text \<open>
  A string is the list of its code units (each below 256).  \<^verbatim>\<open>String.prototype.trim\<close>
  removes white space and line terminators at both ends: of the code units below 256
  these are TAB, LF, VT, FF, CR, SP and NBSP.
\<close>

definition is_whitespace :: "char \<Rightarrow> bool" where
  "is_whitespace c = (c \<in> {CHR 0x09, CHR 0x0A, CHR 0x0B, CHR 0x0C, CHR 0x0D, CHR 0x20, CHR 0xA0})"

definition trim :: "string \<Rightarrow> string" where
  "trim s = rev (dropWhile is_whitespace (rev (dropWhile is_whitespace s)))"

text \<open>
  \<^verbatim>\<open>s.split(sep)\<close> for a separator of one character: the parts between the occurrences of
  the separator, empty parts included; the empty string has the one part \<^verbatim>\<open>""\<close>.
\<close>

fun split_on :: "char \<Rightarrow> string \<Rightarrow> string list" where
  "split_on sep [] = [[]]"
| "split_on sep (c # cs) =
     (if c = sep then [] # split_on sep cs
      else (case split_on sep cs of
              [] \<Rightarrow> [[c]]
            | part # parts \<Rightarrow> (c # part) # parts))"

text \<open>\<^verbatim>\<open>parts.join(sep)\<close>.\<close>

fun join :: "string \<Rightarrow> string list \<Rightarrow> string" where
  "join sep [] = []"
| "join sep [part] = part"
| "join sep (part # next_part # parts) = part @ sep @ join sep (next_part # parts)"

text \<open>\<^verbatim>\<open>parts.slice(1, -1)\<close>: from index 1 up to, not including, the last element.\<close>

definition slice_1_to_last :: "'a list \<Rightarrow> 'a list" where
  "slice_1_to_last xs = take (length xs - 2) (drop 1 xs)"

text \<open>
  \<^verbatim>\<open>parseInt(s, 10)\<close>: leading white space is skipped, one sign is read, then the longest
  run of decimal digits; no digit gives NaN (here \<open>None\<close>), and whatever follows the digits
  is ignored.  The value is the exact integer (a double rounds it beyond \<open>2^53\<close>).
\<close>

definition is_digit :: "char \<Rightarrow> bool" where
  "is_digit c = (c \<in> set ''0123456789'')"

definition digit_value :: "char \<Rightarrow> int" where
  "digit_value c = int (of_char c) - 48"

definition parseInt10 :: "string \<Rightarrow> int option" where
  "parseInt10 s =
     (let s1 = dropWhile is_whitespace s;
          sign = (if s1 \<noteq> [] \<and> hd s1 = CHR ''-'' then - 1 else 1);
          s2 = (if s1 \<noteq> [] \<and> (hd s1 = CHR ''+'' \<or> hd s1 = CHR ''-'') then tl s1 else s1);
          z = takeWhile is_digit s2
      in if z = [] then None else Some (sign * foldl (\<lambda>n c. n * 10 + digit_value c) 0 z))"

text \<open>The object \<^verbatim>\<open>{ pid, cwd, command }\<close> that \<^verbatim>\<open>parsePaneLine\<close> returns; \<open>None\<close> is \<^verbatim>\<open>null\<close>.\<close>

record PaneInfo =
  pid :: int
  cwd :: string
  command :: string

record DiscoveredSession =
  tmuxSession :: string
  command :: string
  cwd :: string
  pid :: "int option"
  discoveredAt :: int

definition parsePaneLine :: "string \<Rightarrow> PaneInfo option" where
  "parsePaneLine line =
     (let parts = split_on CHR '' '' (trim line) in
      if length parts < 3 then None
      else (case parseInt10 (parts ! 0) of
              None \<Rightarrow> None
            | Some pid' \<Rightarrow>
                let command' = parts ! (length parts - 1);
                    cwd' = join '' '' (slice_1_to_last parts)
                in if cwd' = [] then None
                   else Some \<lparr> PaneInfo.pid = pid', cwd = cwd', command = command' \<rparr>))"

text \<open>
  The outside world of a discovery pass: \<open>exec k cmd\<close> is the outcome of the \<open>k\<close>-th shell
  command of the pass when that command is \<open>cmd\<close> (\<open>Inl\<close> the error that rejects the
  promise of \<^verbatim>\<open>execAsync\<close>, \<open>Inr\<close> the standard output), and \<open>Date_now k\<close> is the clock
  read while the output of the \<open>k\<close>-th command is processed.
\<close>

datatype ExecException = ExecException string

record Tmux =
  exec :: "nat \<Rightarrow> string \<Rightarrow> ExecException + string"
  Date_now :: "nat \<Rightarrow> int"

definition list_sessions_command :: string where
  \<open>list_sessions_command = ''tmux list-sessions -F "#{session_name}"''\<close>

definition list_panes_command :: "string \<Rightarrow> string" where
  \<open>list_panes_command sessionName =
     ''tmux list-panes -t '' @ sessionName @
     '' -F "#{pane_pid} #{pane_current_path} #{pane_current_command}"''\<close>

text \<open>The inner loop over the lines of one tmux session; the \<^verbatim>\<open>break\<close> is the return.\<close>

fun scan_panes :: "string \<Rightarrow> int \<Rightarrow> string list \<Rightarrow> DiscoveredSession option" where
  "scan_panes sessionName now [] = None"
| "scan_panes sessionName now (line # lines) =
     (case parsePaneLine line of
        None \<Rightarrow> scan_panes sessionName now lines
      | Some parsed \<Rightarrow>
          if PaneInfo.command parsed = ''claude'' \<or> PaneInfo.command parsed = ''codex''
          then Some \<lparr> tmuxSession = sessionName, command = PaneInfo.command parsed,
                      cwd = PaneInfo.cwd parsed, pid = Some (PaneInfo.pid parsed),
                      discoveredAt = now \<rparr>
          else scan_panes sessionName now lines)"

text \<open>
  The outer loop over the session names; \<open>k\<close> counts the shell commands issued so far,
  \<open>sessions'\<close> is the array \<^verbatim>\<open>sessions\<close> being filled.  The \<^verbatim>\<open>catch\<close> of the loop body is the \<open>Inl\<close>
  branch: nothing else in the \<^verbatim>\<open>try\<close> block can throw.
\<close>

fun discover_loop :: "Tmux \<Rightarrow> nat \<Rightarrow> string list \<Rightarrow> DiscoveredSession list \<Rightarrow> DiscoveredSession list" where
  "discover_loop w k [] sessions' = sessions'"
| "discover_loop w k (sessionName # rest) sessions' =
     (case exec w k (list_panes_command sessionName) of
        Inl error \<Rightarrow> discover_loop w (Suc k) rest sessions'
      | Inr stdout \<Rightarrow>
          (case scan_panes sessionName (Date_now w k) (split_on CHR 0x0A (trim stdout)) of
             None \<Rightarrow> discover_loop w (Suc k) rest sessions'
           | Some found \<Rightarrow> discover_loop w (Suc k) rest (sessions' @ [found])))"

definition session_names :: "string \<Rightarrow> string list" where
  "session_names stdout = filter (\<lambda>name. length name > 0) (split_on CHR 0x0A (trim stdout))"

definition discoverClaudeSessions :: "Tmux \<Rightarrow> DiscoveredSession list" where
  "discoverClaudeSessions w =
     (case exec w 0 list_sessions_command of
        Inl error \<Rightarrow> []
      | Inr stdout \<Rightarrow> discover_loop w 1 (session_names stdout) [])"

subsection \<open>The words of the specification, for comparison\<close>

text \<open>
  The tokens of a line as the specification words them: the maximal runs of characters
  that are not white space.
\<close>

fun whitespace_tokens_from :: "string \<Rightarrow> string \<Rightarrow> string list" where
  "whitespace_tokens_from token [] = (if token = [] then [] else [token])"
| "whitespace_tokens_from token (c # cs) =
     (if is_whitespace c
      then (if token = [] then whitespace_tokens_from [] cs
            else token # whitespace_tokens_from [] cs)
      else whitespace_tokens_from (token @ [c]) cs)"

definition whitespace_tokens :: "string \<Rightarrow> string list" where
  "whitespace_tokens line = whitespace_tokens_from [] line"

text \<open>
  A line qualifies when the parser accepts it with a command of the recognised set; the
  contribution of one tmux session to the result is the record made from its first
  qualifying line, if the query for its panes succeeds and there is such a line.
\<close>

definition qualifies :: "string \<Rightarrow> bool" where
  "qualifies line =
     (case parsePaneLine line of
        None \<Rightarrow> False
      | Some parsed \<Rightarrow> PaneInfo.command parsed = ''claude'' \<or> PaneInfo.command parsed = ''codex'')"

definition session_of_line :: "string \<Rightarrow> int \<Rightarrow> string \<Rightarrow> DiscoveredSession list" where
  "session_of_line sessionName now line =
     (case parsePaneLine line of
        None \<Rightarrow> []
      | Some parsed \<Rightarrow>
          [\<lparr> tmuxSession = sessionName, command = PaneInfo.command parsed,
             cwd = PaneInfo.cwd parsed, pid = Some (PaneInfo.pid parsed),
             discoveredAt = now \<rparr>])"

definition group_sessions :: "Tmux \<Rightarrow> nat \<Rightarrow> string \<Rightarrow> DiscoveredSession list" where
  "group_sessions w k sessionName =
     (case exec w k (list_panes_command sessionName) of
        Inl error \<Rightarrow> []
      | Inr stdout \<Rightarrow>
          (case find qualifies (split_on CHR 0x0A (trim stdout)) of
             None \<Rightarrow> []
           | Some line \<Rightarrow> session_of_line sessionName (Date_now w k) line))"

text \<open>Two worlds for examples: tmux is not installed; four sessions, of which one closes before its panes are listed.\<close>

definition tmux_missing :: Tmux where
  "tmux_missing = \<lparr> exec = (\<lambda>k cmd. Inl (ExecException ''spawn tmux ENOENT'')), Date_now = (\<lambda>k. 1000) \<rparr>"

definition tmux_example :: Tmux where
  "tmux_example =
     \<lparr> exec = (\<lambda>k cmd.
          if cmd = list_sessions_command
            then Inr ''claude\<newline>dev\<newline>gone\<newline>codex\<newline>''
          else if cmd = list_panes_command ''claude''
            then Inr ''99 /home/a zsh\<newline>100 /home/a claude\<newline>101 /home/z codex\<newline>''
          else if cmd = list_panes_command ''dev''
            then Inr ''200 /home/b zsh\<newline>''
          else if cmd = list_panes_command ''codex''
            then Inr ''300 /home/c codex\<newline>''
          else Inl (ExecException ''can't find session'')),
       Date_now = (\<lambda>k. 1000 + int k) \<rparr>"

section \<open>AgentHierarchy.ts\<close>

text \<open>The \<^verbatim>\<open>options\<close> argument of \<^verbatim>\<open>addChild\<close>; an absent optional field is \<open>None\<close>.\<close>

record AddChildOptions =
  toolUseId :: string
  description :: "string option"
  subagentType :: "string option"

text \<open>An \<^verbatim>\<open>AgentNode\<close>; \<^verbatim>\<open>null\<close> is \<open>None\<close>.\<close>

record AgentNode =
  sessionId :: string
  parentId :: "string option"
  toolUseId :: "string option"
  description :: "string option"
  subagentType :: "string option"
  spawnedAt :: int
  completedAt :: "int option"

text \<open>
  The two private maps of the class.  A \<^verbatim>\<open>Set<string>\<close> of child ids is the list of its
  members in insertion order: \<^verbatim>\<open>add\<close> appends an id that is not yet a member, \<^verbatim>\<open>delete\<close>
  removes it.
\<close>

record AgentHierarchy =
  nodes :: "string \<rightharpoonup> AgentNode"
  childrenMap :: "string \<rightharpoonup> string list"

text \<open>
  The parameters \<^verbatim>\<open>sessionId\<close>, \<^verbatim>\<open>parentId\<close> and \<^verbatim>\<open>childId\<close> of the methods are \<open>sid\<close>,
  \<open>parent\<close> and \<open>child\<close> here (the first two names are fields of the node).  The methods
  \<^verbatim>\<open>getRoots\<close> and \<^verbatim>\<open>getHierarchy\<close> enumerate the map in insertion order, which a map
  \<open>string \<rightharpoonup> AgentNode\<close> does not record; no property below is about them.
\<close>

definition set_add :: "string \<Rightarrow> string list \<Rightarrow> string list" where
  "set_add x xs = (if x \<in> set xs then xs else xs @ [x])"

definition set_delete :: "string \<Rightarrow> string list \<Rightarrow> string list" where
  "set_delete x xs = removeAll x xs"

definition new_AgentHierarchy :: AgentHierarchy where
  "new_AgentHierarchy = \<lparr> nodes = Map.empty, childrenMap = Map.empty \<rparr>"

definition addRoot :: "AgentHierarchy \<Rightarrow> string \<Rightarrow> int \<Rightarrow> AgentHierarchy" where
  "addRoot h sid now =
     (if nodes h sid \<noteq> None then h
      else h \<lparr> nodes := (nodes h)(sid \<mapsto>
             \<lparr> sessionId = sid, parentId = None, toolUseId = None, description = None,
               subagentType = None, spawnedAt = now, completedAt = None \<rparr>) \<rparr>)"

text \<open>
  \<^verbatim>\<open>addChild\<close> reads the clock twice: \<open>rootNow\<close> in the \<^verbatim>\<open>addRoot\<close> of a parent it has not
  seen, \<open>now\<close> for the child.  The last two statements of the source (create the set of
  the parent if it has none, then add the child to it) are one update here.
\<close>

definition addChild ::
  "AgentHierarchy \<Rightarrow> string \<Rightarrow> string \<Rightarrow> AddChildOptions \<Rightarrow> int \<Rightarrow> int \<Rightarrow> AgentHierarchy" where
  "addChild h parent child options' rootNow now =
     (let h1 = (if nodes h parent = None then addRoot h parent rootNow else h);
          h2 = h1 \<lparr> nodes := (nodes h1)(child \<mapsto>
                 \<lparr> sessionId = child, parentId = Some parent,
                   toolUseId = Some (AddChildOptions.toolUseId options'),
                   description = AddChildOptions.description options',
                   subagentType = AddChildOptions.subagentType options',
                   spawnedAt = now, completedAt = None \<rparr>) \<rparr>;
          childIds = (case childrenMap h2 parent of None \<Rightarrow> [] | Some ids \<Rightarrow> ids)
      in h2 \<lparr> childrenMap := (childrenMap h2)(parent \<mapsto> set_add child childIds) \<rparr>)"

definition markCompleted :: "AgentHierarchy \<Rightarrow> string \<Rightarrow> int \<Rightarrow> AgentHierarchy" where
  "markCompleted h sid now =
     (case nodes h sid of
        None \<Rightarrow> h
      | Some node \<Rightarrow> h \<lparr> nodes := (nodes h)(sid \<mapsto> node \<lparr> completedAt := Some now \<rparr>) \<rparr>)"

definition getNode :: "AgentHierarchy \<Rightarrow> string \<Rightarrow> AgentNode option" where
  "getNode h sid = nodes h sid"

text \<open>
  \<^verbatim>\<open>if (!node?.parentId) return undefined\<close>: a missing node, a \<^verbatim>\<open>null\<close> parent id and the
  empty string as parent id are all falsy.
\<close>

definition getParent :: "AgentHierarchy \<Rightarrow> string \<Rightarrow> AgentNode option" where
  "getParent h sid =
     (case nodes h sid of
        None \<Rightarrow> None
      | Some node \<Rightarrow>
          (case parentId node of
             None \<Rightarrow> None
           | Some p \<Rightarrow> if p = [] then None else nodes h p))"

definition getChildren :: "AgentHierarchy \<Rightarrow> string \<Rightarrow> AgentNode list" where
  "getChildren h sid =
     (case childrenMap h sid of
        None \<Rightarrow> []
      | Some childIds \<Rightarrow> List.map_filter (nodes h) childIds)"

text \<open>
  The \<^verbatim>\<open>while\<close> loop of \<^verbatim>\<open>getAncestors\<close>, with its two variables \<^verbatim>\<open>current\<close> and
  \<^verbatim>\<open>ancestors\<close>.  Nothing bounds it: on a cycle of parent ids it never returns.
\<close>

partial_function (option) ancestors_loop ::
  "AgentHierarchy \<Rightarrow> AgentNode option \<Rightarrow> AgentNode list \<Rightarrow> AgentNode list option" where
  "ancestors_loop h current ancestors =
     (case current of
        None \<Rightarrow> Some ancestors
      | Some cur \<Rightarrow>
          (case parentId cur of
             None \<Rightarrow> Some ancestors
           | Some p \<Rightarrow>
               if p = [] then Some ancestors
               else (case nodes h p of
                       None \<Rightarrow> Some ancestors
                     | Some parent \<Rightarrow> ancestors_loop h (Some parent) (ancestors @ [parent]))))"

definition getAncestors :: "AgentHierarchy \<Rightarrow> string \<Rightarrow> AgentNode list option" where
  "getAncestors h sid = ancestors_loop h (nodes h sid) []"

text \<open>
  The \<^verbatim>\<open>while\<close> loop of \<^verbatim>\<open>getDescendants\<close>, with its queue and its result array.  It keeps
  no set of visited nodes: on a cycle of the children index it never returns.
\<close>

partial_function (option) descendants_loop ::
  "AgentHierarchy \<Rightarrow> AgentNode list \<Rightarrow> AgentNode list \<Rightarrow> AgentNode list option" where
  "descendants_loop h queue descendants =
     (case queue of
        [] \<Rightarrow> Some descendants
      | node # rest \<Rightarrow>
          descendants_loop h (rest @ getChildren h (sessionId node)) (descendants @ [node]))"

definition getDescendants :: "AgentHierarchy \<Rightarrow> string \<Rightarrow> AgentNode list option" where
  "getDescendants h sid = descendants_loop h (getChildren h sid) []"

definition getDepth :: "AgentHierarchy \<Rightarrow> string \<Rightarrow> nat option" where
  "getDepth h sid = map_option length (getAncestors h sid)"

definition has :: "AgentHierarchy \<Rightarrow> string \<Rightarrow> bool" where
  "has h sid = (nodes h sid \<noteq> None)"

text \<open>
  \<^verbatim>\<open>remove\<close> (the name \<open>remove\<close> is taken by a constant on sets).  The descendants are
  computed first; \<open>None\<close> is the call that never returns because that computation does
  not.
\<close>

definition delete_descendant :: "AgentHierarchy \<Rightarrow> AgentNode \<Rightarrow> AgentHierarchy" where
  "delete_descendant h descendant =
     h \<lparr> nodes := (nodes h)(sessionId descendant := None),
         childrenMap := (childrenMap h)(sessionId descendant := None) \<rparr>"

definition remove_session :: "AgentHierarchy \<Rightarrow> string \<Rightarrow> AgentHierarchy option" where
  "remove_session h sid =
     (case getDescendants h sid of
        None \<Rightarrow> None
      | Some descendants \<Rightarrow>
          let h1 = foldl delete_descendant h descendants;
              h2 = (case nodes h1 sid of
                      None \<Rightarrow> h1
                    | Some node \<Rightarrow>
                        (case parentId node of
                           None \<Rightarrow> h1
                         | Some p \<Rightarrow>
                             if p = [] then h1
                             else (case childrenMap h1 p of
                                     None \<Rightarrow> h1
                                   | Some siblings \<Rightarrow>
                                       h1 \<lparr> childrenMap :=
                                              (childrenMap h1)(p \<mapsto> set_delete sid siblings) \<rparr>)))
          in Some (h2 \<lparr> nodes := (nodes h2)(sid := None),
                        childrenMap := (childrenMap h2)(sid := None) \<rparr>))"

definition clear :: "AgentHierarchy \<Rightarrow> AgentHierarchy" where
  "clear h = h \<lparr> nodes := Map.empty, childrenMap := Map.empty \<rparr>"

subsection \<open>Reachable states\<close>

text \<open>
  The states a client reaches with \<^verbatim>\<open>addRoot\<close> and \<^verbatim>\<open>addChild\<close> when no \<^verbatim>\<open>addChild\<close> makes
  a session a child of itself or of one of its own descendants: the parent id differs
  from the child id and is not the id of a node that \<^verbatim>\<open>getDescendants\<close> lists for the
  child (once the parent has its node, which \<^verbatim>\<open>addChild\<close> creates first when it is
  missing).  Adding a child that has no node yet is a special case.
\<close>

inductive built :: "AgentHierarchy \<Rightarrow> bool" where
  built_new: "built new_AgentHierarchy"
| built_addRoot: "built h \<Longrightarrow> built (addRoot h sid now)"
| built_addChild:
    "built h \<Longrightarrow> child \<noteq> parent \<Longrightarrow>
     getDescendants (addRoot h parent rootNow) child = Some ds \<Longrightarrow>
     parent \<notin> sessionId ` set ds \<Longrightarrow>
     built (addChild h parent child options' rootNow now)"

text \<open>
  The same with every mutator of the class: \<^verbatim>\<open>markCompleted\<close>, \<^verbatim>\<open>clear\<close>, and the calls of
  \<^verbatim>\<open>remove\<close> that return.
\<close>

inductive managed :: "AgentHierarchy \<Rightarrow> bool" where
  managed_new: "managed new_AgentHierarchy"
| managed_addRoot: "managed h \<Longrightarrow> managed (addRoot h sid now)"
| managed_addChild:
    "managed h \<Longrightarrow> child \<noteq> parent \<Longrightarrow>
     getDescendants (addRoot h parent rootNow) child = Some ds \<Longrightarrow>
     parent \<notin> sessionId ` set ds \<Longrightarrow>
     managed (addChild h parent child options' rootNow now)"
| managed_markCompleted: "managed h \<Longrightarrow> managed (markCompleted h sid now)"
| managed_remove: "managed h \<Longrightarrow> remove_session h sid = Some h' \<Longrightarrow> managed h'"
| managed_clear: "managed h \<Longrightarrow> managed (clear h)"

text \<open>
  The invariant of these states, with a rank for every session id and a bound \<open>B\<close> on
  the ranks in use: a node is stored under its own id; the parent of a node exists, has
  a smaller rank and lists the node among its children; every listed child that has a
  node ranks above the parent that lists it; only ids that have a node have a children
  set.
\<close>

definition ranked :: "AgentHierarchy \<Rightarrow> (string \<Rightarrow> nat) \<Rightarrow> nat \<Rightarrow> bool" where
  "ranked h rank B \<longleftrightarrow>
     (\<forall>x n. nodes h x = Some n \<longrightarrow> sessionId n = x \<and> rank x < B)
   \<and> (\<forall>x n p. nodes h x = Some n \<longrightarrow> parentId n = Some p \<longrightarrow>
          nodes h p \<noteq> None \<and> rank p < rank x \<and> (\<exists>cs. childrenMap h p = Some cs \<and> x \<in> set cs))
   \<and> (\<forall>p cs c. childrenMap h p = Some cs \<longrightarrow> c \<in> set cs \<longrightarrow> nodes h c \<noteq> None \<longrightarrow>
          rank p < rank c)
   \<and> (\<forall>p. childrenMap h p \<noteq> None \<longrightarrow> nodes h p \<noteq> None)"

text \<open>The chain of parents of a node, nearest first, as a relation.\<close>

inductive ancestry :: "AgentHierarchy \<Rightarrow> AgentNode \<Rightarrow> AgentNode list \<Rightarrow> bool" where
  ancestry_root: "parentId cur = None \<Longrightarrow> ancestry h cur []"
| ancestry_empty: "parentId cur = Some [] \<Longrightarrow> ancestry h cur []"
| ancestry_broken: "parentId cur = Some p \<Longrightarrow> p \<noteq> [] \<Longrightarrow> nodes h p = None \<Longrightarrow> ancestry h cur []"
| ancestry_step:
    "parentId cur = Some p \<Longrightarrow> p \<noteq> [] \<Longrightarrow> nodes h p = Some parent \<Longrightarrow>
     ancestry h parent rest \<Longrightarrow> ancestry h cur (parent # rest)"

text \<open>
  The measure of the queue of \<^verbatim>\<open>getDescendants\<close>: the multiset of the distances of its
  nodes from the bound of the ranks.
\<close>

definition queue_measure :: "(string \<Rightarrow> nat) \<Rightarrow> nat \<Rightarrow> AgentNode list \<Rightarrow> nat multiset" where
  "queue_measure rank B queue = mset (map (\<lambda>d. B - rank (sessionId d)) queue)"

text \<open>
  Example states: the options of a spawn, the node \<^verbatim>\<open>addRoot\<close> and \<^verbatim>\<open>addChild\<close> create, a
  family of four sessions (the session \<open>child\<close> registers as a root before its parent
  reports the spawn), and a state with a parent id that refers to no node.
\<close>

definition spawn :: AddChildOptions where
  "spawn = \<lparr> AddChildOptions.toolUseId = ''tool-1'', description = None, subagentType = None \<rparr>"

definition agent :: "string \<Rightarrow> string option \<Rightarrow> int \<Rightarrow> AgentNode" where
  "agent sid parent now =
     \<lparr> sessionId = sid, parentId = parent,
       toolUseId = (if parent = None then None else Some ''tool-1''),
       description = None, subagentType = None, spawnedAt = now, completedAt = None \<rparr>"

definition family :: AgentHierarchy where
  "family =
     addChild
       (addChild
          (addChild (addRoot (addRoot new_AgentHierarchy ''root'' 1) ''child'' 2)
             ''root'' ''child'' spawn 2 3)
          ''child'' ''grandchild'' spawn 4 5)
       ''root'' ''other'' spawn 6 7"


chapter \<open>Verification\<close>

section \<open>MetricsCollector: aggregation\<close>

lemma recordToolUse_sessions:
  "sessions (recordToolUse c sid now d) =
     (sessions c)(sid \<mapsto> folded (case sessions c sid of Some s \<Rightarrow> s | None \<Rightarrow> fresh_session now) d)"
  unfolding recordToolUse_def Let_def folded_def fresh_session_def supplied_def
  by (cases "ToolUseData.inputTokens d"; cases "ToolUseData.outputTokens d"; cases "success d";
      cases "sessions c sid"; simp)




















lemma run_calls_absent:
  "sessions c sid = None \<Longrightarrow> \<forall>call\<in>set calls. \<not> records_for sid call \<Longrightarrow>
   sessions (run_calls c calls) sid = None"
  unfolding run_calls_def
proof (induction calls arbitrary: c)
  case Nil
  then show ?case by simp
next
  case (Cons call calls)
  have "sessions (apply_call c call) sid = None"
    using Cons.prems
    by (cases call) (auto simp: recordToolUse_sessions clearSession_def clearAll_def)
  then show ?case using Cons by simp
qed

text \<open>
  Claim C8.  For a session id that no \<^verbatim>\<open>recordToolUse\<close> call of the collector's history
  names, and for a session id right after \<^verbatim>\<open>clearSession\<close> on it, \<^verbatim>\<open>getMetrics\<close> returns
  the all-zero snapshot: tokens {0, 0, 0, 0}, latency {0, 0, 0}, errorRate 0, no tool
  counts, duration 0.  (The model of \<^verbatim>\<open>getMetrics\<close> is a total function: no call raises.)
\<close>

theorem getMetrics_unknown_session:
  "((\<forall>call\<in>set calls. \<not> records_for sid call) \<longrightarrow>
      getMetrics (run_calls new_MetricsCollector calls) sid now =
        \<lparr> tokens = \<lparr> tokens_input = 0, tokens_output = 0, tokens_total = 0, tokens_cost = 0 \<rparr>,
          latency = \<lparr> avg = 0, p95 = 0, p99 = 0 \<rparr>,
          errorRate = 0, toolCounts = Map.empty, duration = 0 \<rparr>)
   \<and> getMetrics (clearSession c sid') sid' now' =
        \<lparr> tokens = \<lparr> tokens_input = 0, tokens_output = 0, tokens_total = 0, tokens_cost = 0 \<rparr>,
          latency = \<lparr> avg = 0, p95 = 0, p99 = 0 \<rparr>,
          errorRate = 0, toolCounts = Map.empty, duration = 0 \<rparr>"
proof -
  have "(\<forall>call\<in>set calls. \<not> records_for sid call) \<Longrightarrow>
        sessions (run_calls new_MetricsCollector calls) sid = None"
    by (rule run_calls_absent) (simp_all add: new_MetricsCollector_def)
  then show ?thesis
    by (simp add: getMetrics_def empty_MetricsData_def clearSession_def)
qed

theorem getMetrics_unknown_session_witness:
  "getMetrics (run_calls new_MetricsCollector
       [RecordToolUse ''session1'' 10 \<lparr> tool = ''Read'', duration = 100, success = True,
                                          inputTokens = Some 5, outputTokens = None \<rparr>,
        ClearSession ''never-seen'']) ''never-seen'' 20 =
        \<lparr> tokens = \<lparr> tokens_input = 0, tokens_output = 0, tokens_total = 0, tokens_cost = 0 \<rparr>,
          latency = \<lparr> avg = 0, p95 = 0, p99 = 0 \<rparr>,
          errorRate = 0, toolCounts = Map.empty, duration = 0 \<rparr>"
  using getMetrics_unknown_session [of
      "[RecordToolUse ''session1'' 10 \<lparr> tool = ''Read'', duration = 100, success = True,
                                          inputTokens = Some 5, outputTokens = None \<rparr>,
        ClearSession ''never-seen'']" "''never-seen''" 20]
  by simp

text \<open>
  Claim C10.  \<^verbatim>\<open>recordToolUse(A, data)\<close> leaves every other session \<open>B\<close> as it was: the
  entry of \<open>B\<close>, the snapshot \<^verbatim>\<open>getMetrics(B)\<close> at any fixed observation time, and the
  entry and the membership of \<open>B\<close> in \<^verbatim>\<open>getAllMetrics\<close>.
\<close>

theorem recordToolUse_frame:
  assumes "A \<noteq> B"
  shows "sessions (recordToolUse c A now data) B = sessions c B
       \<and> getMetrics (recordToolUse c A now data) B t = getMetrics c B t
       \<and> getAllMetrics (recordToolUse c A now data) t B = getAllMetrics c t B
       \<and> (B \<in> dom (getAllMetrics (recordToolUse c A now data) t) \<longleftrightarrow> B \<in> dom (getAllMetrics c t))"
proof -
  have s: "sessions (recordToolUse c A now data) B = sessions c B"
    using assms by (simp add: recordToolUse_sessions)
  have g: "getMetrics (recordToolUse c A now data) B t = getMetrics c B t"
    unfolding getMetrics_def s ..
  have a: "getAllMetrics (recordToolUse c A now data) t B = getAllMetrics c t B"
    unfolding getAllMetrics_def s g ..
  show ?thesis using s g a by (simp only: dom_def mem_Collect_eq simp_thms)
qed

theorem recordToolUse_frame_witness:
  "''session1'' \<noteq> ''session2''
   \<and> getMetrics (recordToolUse
          (recordToolUse new_MetricsCollector ''session2'' 5
             \<lparr> tool = ''Write'', duration = 40, success = True,
               inputTokens = Some 5, outputTokens = Some 15 \<rparr>)
          ''session1'' 10
          \<lparr> tool = ''Read'', duration = 100, success = False,
            inputTokens = Some 20, outputTokens = Some 10 \<rparr>) ''session2'' 30
     = getMetrics (recordToolUse new_MetricsCollector ''session2'' 5
             \<lparr> tool = ''Write'', duration = 40, success = True,
               inputTokens = Some 5, outputTokens = Some 15 \<rparr>) ''session2'' 30
   \<and> tokens_total (tokens (getMetrics (recordToolUse
          (recordToolUse new_MetricsCollector ''session2'' 5
             \<lparr> tool = ''Write'', duration = 40, success = True,
               inputTokens = Some 5, outputTokens = Some 15 \<rparr>)
          ''session1'' 10
          \<lparr> tool = ''Read'', duration = 100, success = False,
            inputTokens = Some 20, outputTokens = Some 10 \<rparr>) ''session2'' 30)) = 20"
proof -
  have ne: "''session1'' \<noteq> ''session2''" by simp
  have "tokens_total (tokens (getMetrics (recordToolUse new_MetricsCollector ''session2'' 5
             \<lparr> tool = ''Write'', duration = 40, success = True,
               inputTokens = Some 5, outputTokens = Some 15 \<rparr>) ''session2'' 30)) = 20"
    by (simp add: getMetrics_def recordToolUse_sessions folded_def fresh_session_def supplied_def
          new_MetricsCollector_def Let_def)
  then show ?thesis
    using ne recordToolUse_frame [OF ne, of
        "recordToolUse new_MetricsCollector ''session2'' 5
             \<lparr> tool = ''Write'', duration = 40, success = True,
               inputTokens = Some 5, outputTokens = Some 15 \<rparr>" 10
         "\<lparr> tool = ''Read'', duration = 100, success = False,
            inputTokens = Some 20, outputTokens = Some 10 \<rparr>" 30]
    by simp
qed




section \<open>MetricsCollector: the order of the percentiles, with NaN and the infinities\<close>

lemma number_le_refl: "a \<noteq> NaN \<Longrightarrow> number_le a a"
  by (cases a) simp_all

lemma number_le_trans: "number_le a b \<Longrightarrow> number_le b c \<Longrightarrow> number_le a c"
  by (cases a; cases b; cases c) simp_all

lemma number_le_NaN: "number_le a b \<Longrightarrow> a \<noteq> NaN \<and> b \<noteq> NaN"
  by (cases a; cases b) simp_all

lemma SortCompare_positive:
  "a \<noteq> NaN \<Longrightarrow> b \<noteq> NaN \<Longrightarrow> number_positive (SortCompare a b) = (\<not> number_le a b)"
  by (cases a; cases b)
     (auto simp add: SortCompare_def comparefn_def number_minus_def Let_def)

lemma SortCompare_not_positive:
  "a \<noteq> NaN \<Longrightarrow> b \<noteq> NaN \<Longrightarrow> number_positive (SortCompare a b) \<Longrightarrow> number_le b a"
  by (cases a; cases b) (simp_all add: SortCompare_def comparefn_def number_minus_def Let_def)

lemma set_sort_insert: "set (sort_insert x ys) = insert x (set ys)"
  by (induction ys) auto

lemma length_sort_insert: "length (sort_insert x ys) = Suc (length ys)"
  by (induction ys) auto

lemma sorted_sort_insert:
  assumes "x \<noteq> NaN" and "NaN \<notin> set ys" and "sorted_wrt number_le ys"
  shows "sorted_wrt number_le (sort_insert x ys)"
  using assms(2,3)
proof (induction ys)
  case Nil
  then show ?case by simp
next
  case (Cons y ys)
  have y: "y \<noteq> NaN" using Cons.prems(1) by auto
  show ?case
  proof (cases "number_positive (SortCompare x y)")
    case True
    then have yx: "number_le y x" using assms(1) y by (simp add: SortCompare_not_positive)
    have "sorted_wrt number_le (sort_insert x ys)"
      using Cons by simp
    then show ?thesis using True yx Cons.prems(2)
      by (simp add: set_sort_insert)
  next
    case False
    then have xy: "number_le x y" using assms(1) y by (simp add: SortCompare_positive)
    have "\<forall>z\<in>set ys. number_le x z"
      using Cons.prems(2) xy by (auto intro: number_le_trans)
    then show ?thesis using False xy Cons.prems(2) by simp
  qed
qed

lemma set_Array_sort: "set (Array_sort xs) = set xs"
  unfolding Array_sort_def by (induction xs) (simp_all add: set_sort_insert)

lemma length_Array_sort: "length (Array_sort xs) = length xs"
  unfolding Array_sort_def by (induction xs) (simp_all add: length_sort_insert)

lemma sorted_Array_sort:
  "NaN \<notin> set xs \<Longrightarrow> sorted_wrt number_le (Array_sort xs)"
proof (induction xs)
  case Nil
  then show ?case by (simp add: Array_sort_def)
next
  case (Cons x xs)
  have "sorted_wrt number_le (sort_insert x (Array_sort xs))"
    using Cons by (intro sorted_sort_insert) (auto simp add: set_Array_sort)
  then show ?case by (simp add: Array_sort_def)
qed

lemma Array_sort_single: "Array_sort [d] = [d]"
  by (simp add: Array_sort_def)

lemma percentile_n_mono:
  assumes "ds \<noteq> []" and "NaN \<notin> set ds" and "p \<le> q"
  shows "number_le (percentile_n ds p) (percentile_n ds q)"
proof -
  let ?n = "length ds"
  let ?i = "\<lambda>r. nat (min (max (\<lceil>(r / 100) * real ?n\<rceil> - 1) 0) (int ?n - 1))"
  let ?s = "Array_sort ds"
  have n: "0 < ?n" using assms(1) by simp
  have "(p / 100) * real ?n \<le> (q / 100) * real ?n"
    using assms(3) by (simp add: mult_right_mono divide_right_mono)
  then have "\<lceil>(p / 100) * real ?n\<rceil> \<le> \<lceil>(q / 100) * real ?n\<rceil>"
    by (rule ceiling_mono)
  then have le: "?i p \<le> ?i q" by simp
  have "min (max (\<lceil>(q / 100) * real ?n\<rceil> - 1) 0) (int ?n - 1) \<le> int ?n - 1"
    by (rule min.cobounded2)
  moreover have "0 < int ?n" using n by simp
  ultimately have "?i q < ?n" by linarith
  then have lt: "?i q < length ?s" by (simp add: length_Array_sort)
  have srt: "sorted_wrt number_le ?s" using assms(2) by (rule sorted_Array_sort)
  have "number_le (?s ! ?i p) (?s ! ?i q)"
  proof (cases "?i p = ?i q")
    case True
    have "?s ! ?i q \<in> set ?s" using lt by (rule nth_mem)
    then have "?s ! ?i q \<noteq> NaN" using assms(2) by (auto simp: set_Array_sort)
    then show ?thesis unfolding True by (rule number_le_refl)
  next
    case False
    with le have "?i p < ?i q" by (rule le_neq_trans)
    then show ?thesis using srt lt unfolding sorted_wrt_iff_nth_less by blast
  qed
  then show ?thesis using assms(1) by (simp add: percentile_n_def Let_def length_Array_sort)
qed

lemma percentile_n_single: "percentile_n [d] p = d"
  by (simp add: percentile_n_def Let_def min_def max_def Array_sort_single)

lemma number_plus_zero: "d \<noteq> NaN \<Longrightarrow> number_plus (Finite 0) d = d"
  by (cases d) simp_all

lemma number_divide_one: "number_divide d (Finite 1) = d"
  by (cases d) simp_all

lemma getMetrics_n_latency:
  "sessions_n c sid = Some s \<Longrightarrow>
   latency_n (getMetrics_n c sid now) =
     \<lparr> avg_n = (if length (durations_n s) > 0
                 then number_divide (foldl number_plus (Finite 0) (durations_n s))
                        (Finite (real (length (durations_n s))))
                 else Finite 0),
       p95_n = percentile_n (durations_n s) 95, p99_n = percentile_n (durations_n s) 99 \<rparr>"
  by (simp add: getMetrics_n_def Let_def)

text \<open>On finite numbers the second model computes what the first computes.\<close>

lemma sort_insert_Finite:
  "sort_insert (Finite x) (map Finite ys) = map Finite (insort x ys)"
  by (induction ys)
     (auto simp add: SortCompare_def comparefn_def number_minus_def Let_def)

lemma Array_sort_Finite: "Array_sort (map Finite xs) = map Finite (sort xs)"
proof (induction xs)
  case Nil
  then show ?case by (simp add: Array_sort_def)
next
  case (Cons x xs)
  have "Array_sort (map Finite (x # xs)) = sort_insert (Finite x) (Array_sort (map Finite xs))"
    by (simp add: Array_sort_def)
  then show ?case by (simp add: Cons sort_insert_Finite)
qed

lemma percentile_n_Finite: "percentile_n (map Finite ds) p = Finite (percentile ds p)"
proof (cases "ds = []")
  case True
  then show ?thesis by (simp add: percentile_n_def percentile_def)
next
  case False
  let ?n = "length ds"
  let ?i = "nat (min (max (\<lceil>(p / 100) * real ?n\<rceil> - 1) 0) (int ?n - 1))"
  have "min (max (\<lceil>(p / 100) * real ?n\<rceil> - 1) 0) (int ?n - 1) \<le> int ?n - 1"
    by (rule min.cobounded2)
  moreover have "0 < int ?n" using False by simp
  ultimately have "?i < ?n" by linarith
  then have "map Finite (sort ds) ! ?i = Finite (sort ds ! ?i)" by simp
  then show ?thesis using False
    by (simp add: percentile_n_def percentile_def Let_def Array_sort_Finite)
qed

lemma foldl_number_plus_Finite:
  "foldl number_plus (Finite a) (map Finite ds) = Finite (foldl (+) a ds)"
  by (induction ds arbitrary: a) simp_all

lemma getMetrics_n_finite:
  "getMetrics_n (finite_collector c) sid now = finite_metrics (getMetrics c sid now)"
proof (cases "sessions c sid")
  case None
  then show ?thesis
    by (simp add: getMetrics_n_def getMetrics_def finite_collector_def finite_metrics_def
          empty_MetricsData_def empty_MetricsData_n_def)
next
  case (Some s)
  then show ?thesis
    by (simp add: getMetrics_n_def getMetrics_def finite_collector_def finite_metrics_def
          finite_session_def Let_def percentile_n_Finite foldl_number_plus_Finite)
qed

lemma truthy_Finite: "truthy (Finite v) = (v \<noteq> 0)"
  by (simp add: truthy_def)

lemma recordToolUse_n_finite:
  "recordToolUse_n (finite_collector c) sid now (finite_data d)
     = finite_collector (recordToolUse c sid now d)"
  unfolding recordToolUse_n_def recordToolUse_def finite_collector_def finite_data_def
    finite_session_def Let_def
  by (cases "ToolUseData.inputTokens d"; cases "ToolUseData.outputTokens d"; cases "success d";
      cases "sessions c sid"; simp add: truthy_Finite fun_eq_iff)

lemma recordToolUse_n_durations:
  "\<exists>s. sessions_n (recordToolUse_n c sid now d) sid = Some s
      \<and> durations_n s = (case sessions_n c sid of None \<Rightarrow> [] | Some s0 \<Rightarrow> durations_n s0)
                          @ [ToolUseData_n.duration_n d]"
  unfolding recordToolUse_n_def Let_def
  by (cases "ToolUseData_n.inputTokens_n d"; cases "ToolUseData_n.outputTokens_n d";
      cases "success_n d"; cases "sessions_n c sid"; simp)

text \<open>
  Claim C9, as amended.  For a session whose duration sequence is non-empty and holds no
  NaN (it may hold infinities), the snapshot of \<^verbatim>\<open>getMetrics\<close> has \<^verbatim>\<open>p95 <= p99\<close>, and
  for a one-element sequence \<^verbatim>\<open>avg\<close>, \<^verbatim>\<open>p95\<close> and \<^verbatim>\<open>p99\<close> are each \<^verbatim>\<open>==\<close> that element.
\<close>

theorem p95_le_p99_without_NaN:
  assumes "sessions_n c sid = Some s" and "durations_n s \<noteq> []" and "NaN \<notin> set (durations_n s)"
  shows "number_le (p95_n (latency_n (getMetrics_n c sid now))) (p99_n (latency_n (getMetrics_n c sid now)))
       \<and> (\<forall>d. durations_n s = [d] \<longrightarrow>
             number_eq (avg_n (latency_n (getMetrics_n c sid now))) d
           \<and> number_eq (p95_n (latency_n (getMetrics_n c sid now))) d
           \<and> number_eq (p99_n (latency_n (getMetrics_n c sid now))) d)"
proof -
  have "number_le (percentile_n (durations_n s) 95) (percentile_n (durations_n s) 99)"
    using assms(2,3) by (rule percentile_n_mono) simp
  moreover have "durations_n s = [d] \<Longrightarrow> d \<noteq> NaN" for d
    using assms(3) by auto
  ultimately show ?thesis
    by (simp add: getMetrics_n_latency [OF assms(1)] percentile_n_single number_eq_def
          number_plus_zero number_divide_one)
qed

lemma unbounded_uses_session:
  "sessions_n unbounded_uses ''session1'' =
     Some \<lparr> SessionMetrics_n.inputTokens_n = Finite 0, outputTokens_n = Finite 0,
            durations_n = [Finite 300, Infinity, Finite 100],
            errorCount_n = 0, totalCount_n = 3, toolCounts_n = [''Read'' \<mapsto> 3], startTime_n = 10 \<rparr>"
  by (simp add: unbounded_uses_def recordToolUse_n_def new_MetricsCollector_n_def Let_def
        numeral_3_eq_3)

theorem p95_le_p99_without_NaN_witness:
  "sessions_n unbounded_uses ''session1'' =
     Some \<lparr> SessionMetrics_n.inputTokens_n = Finite 0, outputTokens_n = Finite 0,
            durations_n = [Finite 300, Infinity, Finite 100],
            errorCount_n = 0, totalCount_n = 3, toolCounts_n = [''Read'' \<mapsto> 3], startTime_n = 10 \<rparr>
   \<and> number_le (p95_n (latency_n (getMetrics_n unbounded_uses ''session1'' 40)))
                (p99_n (latency_n (getMetrics_n unbounded_uses ''session1'' 40)))"
  using unbounded_uses_session
    p95_le_p99_without_NaN [OF unbounded_uses_session, of 40]
  by simp

text \<open>
  Claim C9, as stated, fails for the session with the single duration NaN:
  \<^verbatim>\<open>recordToolUse\<close> pushes the NaN, the sorted copy of the one-element array is the array,
  and \<^verbatim>\<open>avg\<close>, \<^verbatim>\<open>p95\<close> and \<^verbatim>\<open>p99\<close> all are NaN; then \<^verbatim>\<open>p95 <= p99\<close> is false, and none
  of the three is \<^verbatim>\<open>==\<close> the element.
\<close>

theorem p95_le_p99_NaN_counterexample:
  "sessions_n NaN_use ''session1'' =
     Some \<lparr> SessionMetrics_n.inputTokens_n = Finite 0, outputTokens_n = Finite 0,
            durations_n = [NaN], errorCount_n = 0, totalCount_n = 1,
            toolCounts_n = [''Read'' \<mapsto> 1], startTime_n = 10 \<rparr>
   \<and> avg_n (latency_n (getMetrics_n NaN_use ''session1'' 20)) = NaN
   \<and> p95_n (latency_n (getMetrics_n NaN_use ''session1'' 20)) = NaN
   \<and> p99_n (latency_n (getMetrics_n NaN_use ''session1'' 20)) = NaN
   \<and> \<not> number_le (p95_n (latency_n (getMetrics_n NaN_use ''session1'' 20)))
                  (p99_n (latency_n (getMetrics_n NaN_use ''session1'' 20)))
   \<and> \<not> number_eq (avg_n (latency_n (getMetrics_n NaN_use ''session1'' 20))) NaN
   \<and> \<not> number_eq (p95_n (latency_n (getMetrics_n NaN_use ''session1'' 20))) NaN
   \<and> \<not> number_eq (p99_n (latency_n (getMetrics_n NaN_use ''session1'' 20))) NaN"
  by (simp add: NaN_use_def recordToolUse_n_def new_MetricsCollector_n_def getMetrics_n_def
        Let_def percentile_n_def Array_sort_def number_eq_def)

section \<open>TmuxDiscovery: the line parser\<close>

lemmas parse_eval = parsePaneLine_def trim_def is_whitespace_def parseInt10_def is_digit_def
  digit_value_def slice_1_to_last_def Let_def

lemma split_on_nonempty: "split_on sep s \<noteq> []"
  by (induction s) (auto split: list.splits)

lemma join_split_on: "join [sep] (split_on sep s) = s"
proof (induction s)
  case Nil
  then show ?case by simp
next
  case (Cons c cs)
  obtain part parts where ps: "split_on sep cs = part # parts"
    using split_on_nonempty [of sep cs] by (cases "split_on sep cs") auto
  show ?case using Cons ps by (cases parts) auto
qed

lemma split_on_no_sep: "part \<in> set (split_on sep s) \<Longrightarrow> sep \<notin> set part"
  by (induction s arbitrary: part) (auto split: list.splits if_splits)

lemma split_on_append_sep:
  "sep \<notin> set tok \<Longrightarrow> split_on sep (tok @ sep # rest) = tok # split_on sep rest"
  by (induction tok) auto

lemma split_on_no_sep_id: "sep \<notin> set tok \<Longrightarrow> split_on sep tok = [tok]"
  by (induction tok) auto

lemma split_on_join:
  "toks \<noteq> [] \<Longrightarrow> \<forall>tok\<in>set toks. sep \<notin> set tok \<Longrightarrow> split_on sep (join [sep] toks) = toks"
proof (induction "[sep]" toks rule: join.induct)
  case 1
  then show ?case by simp
next
  case (2 part)
  then show ?case by (simp add: split_on_no_sep_id)
next
  case (3 part next_part parts)
  then show ?case by (simp add: split_on_append_sep)
qed

lemma slice_1_to_last_eq: "slice_1_to_last xs = butlast (tl xs)"
  by (simp add: slice_1_to_last_def butlast_conv_take drop_Suc numeral_2_eq_2)

lemma parsePaneLine_eq:
  "parsePaneLine line =
     (let parts = split_on CHR '' '' (trim line) in
      if length parts < 3 \<or> parseInt10 (hd parts) = None \<or> join '' '' (butlast (tl parts)) = []
      then None
      else Some \<lparr> PaneInfo.pid = the (parseInt10 (hd parts)),
                  cwd = join '' '' (butlast (tl parts)), command = last parts \<rparr>)"
proof -
  have "parts \<noteq> [] \<Longrightarrow> parts ! 0 = hd parts \<and> parts ! (length parts - 1) = last parts"
    for parts :: "string list"
    by (simp add: hd_conv_nth last_conv_nth)
  then show ?thesis
    using split_on_nonempty [of "CHR '' ''" "trim line"]
    by (auto simp: parsePaneLine_def Let_def slice_1_to_last_eq split: option.splits)
qed

lemma space_is_whitespace: "is_whitespace CHR '' ''"
  by (simp add: is_whitespace_def)

lemma whitespace_tokens_from_token:
  "\<forall>c\<in>set tok. \<not> is_whitespace c \<Longrightarrow>
   whitespace_tokens_from acc (tok @ rest) = whitespace_tokens_from (acc @ tok) rest"
  by (induction tok arbitrary: acc) auto

lemma whitespace_tokens_from_join:
  assumes "\<forall>tok\<in>set toks. tok \<noteq> [] \<and> (\<forall>c\<in>set tok. \<not> is_whitespace c)"
  shows "whitespace_tokens_from [] (join '' '' toks) = toks"
  using assms
proof (induction "'' ''" toks rule: join.induct)
  case 1
  then show ?case by simp
next
  case (2 part)
  then show ?case
    using whitespace_tokens_from_token [of part "[]" "[]"] by simp
next
  case (3 part next_part parts)
  then show ?case
    using whitespace_tokens_from_token [of part "[]" "'' '' @ join '' '' (next_part # parts)"]
    by (simp add: space_is_whitespace)
qed

lemma trim_id:
  "s \<noteq> [] \<Longrightarrow> \<not> is_whitespace (hd s) \<Longrightarrow> \<not> is_whitespace (last s) \<Longrightarrow> trim s = s"
proof -
  assume s: "s \<noteq> []" and h: "\<not> is_whitespace (hd s)" and l: "\<not> is_whitespace (last s)"
  have "dropWhile is_whitespace s = s"
    using s h by (cases s) simp_all
  moreover have "dropWhile is_whitespace (rev s) = rev s"
    using s l by (cases "rev s") (simp_all add: last_rev [symmetric] hd_rev)
  ultimately show ?thesis by (simp add: trim_def)
qed

lemma join_hd_last:
  assumes "toks \<noteq> []" and "\<forall>tok\<in>set toks. tok \<noteq> []"
  shows "join sep toks \<noteq> [] \<and> hd (join sep toks) = hd (hd toks)
       \<and> last (join sep toks) = last (last toks)"
  using assms
  by (induction sep toks rule: join.induct) auto

lemma trim_join:
  assumes "toks \<noteq> []" and "\<forall>tok\<in>set toks. tok \<noteq> [] \<and> (\<forall>c\<in>set tok. \<not> is_whitespace c)"
  shows "trim (join '' '' toks) = join '' '' toks"
proof -
  have ne: "\<forall>tok\<in>set toks. tok \<noteq> []" using assms(2) by blast
  note j = join_hd_last [OF assms(1) ne, of "'' ''"]
  have "hd toks \<in> set toks" "last toks \<in> set toks" using assms(1) by simp_all
  then have "\<not> is_whitespace (hd (hd toks))" "\<not> is_whitespace (last (last toks))"
    using assms(2) by (metis hd_in_set, metis last_in_set)
  then show ?thesis using j by (simp add: trim_id)
qed

lemma well_formed_parts:
  assumes "toks \<noteq> []" and "\<forall>tok\<in>set toks. tok \<noteq> [] \<and> (\<forall>c\<in>set tok. \<not> is_whitespace c)"
  shows "split_on CHR '' '' (trim (join '' '' toks)) = toks"
    and "whitespace_tokens (join '' '' toks) = toks"
proof -
  have "\<forall>tok\<in>set toks. CHR '' '' \<notin> set tok"
    using assms(2) space_is_whitespace by blast
  then show "split_on CHR '' '' (trim (join '' '' toks)) = toks"
    using split_on_join [OF assms(1), of "CHR '' ''"] trim_join [OF assms] by simp
  show "whitespace_tokens (join '' '' toks) = toks"
    unfolding whitespace_tokens_def using assms(2) by (rule whitespace_tokens_from_join)
qed

text \<open>
  Claim C5, as amended.  The parts of a line are what \<^verbatim>\<open>line.trim().split(' ')\<close> yields:
  the pieces of the trimmed line between single space characters, empty pieces
  included (joining them with single spaces gives the trimmed line back, and no part
  holds a space).  \<^verbatim>\<open>parsePaneLine\<close> rejects the line exactly when there are fewer than
  3 parts, or \<^verbatim>\<open>parseInt\<close> finds no integer at the start of the first part, or the join
  of the parts between the first and the last is the empty string; on acceptance PID is
  the integer \<^verbatim>\<open>parseInt\<close> reads from the first part, COMMAND is the last part and CWD is
  that join.  For a line made of non-empty tokens free of white space and separated by
  single spaces, the parts are its whitespace-separated tokens.
\<close>

theorem parsePaneLine_single_space_parts:
  "(parsePaneLine line = None \<longleftrightarrow>
       length (split_on CHR '' '' (trim line)) < 3
     \<or> parseInt10 (hd (split_on CHR '' '' (trim line))) = None
     \<or> join '' '' (butlast (tl (split_on CHR '' '' (trim line)))) = [])
 \<and> (parsePaneLine line = Some r \<longrightarrow>
       parseInt10 (hd (split_on CHR '' '' (trim line))) = Some (PaneInfo.pid r)
     \<and> PaneInfo.command r = last (split_on CHR '' '' (trim line))
     \<and> PaneInfo.cwd r = join '' '' (butlast (tl (split_on CHR '' '' (trim line)))))
 \<and> join '' '' (split_on CHR '' '' (trim line)) = trim line
 \<and> (\<forall>part\<in>set (split_on CHR '' '' (trim line)). CHR '' '' \<notin> set part)
 \<and> (toks \<noteq> [] \<and> (\<forall>tok\<in>set toks. tok \<noteq> [] \<and> (\<forall>c\<in>set tok. \<not> is_whitespace c)) \<longrightarrow>
       split_on CHR '' '' (trim (join '' '' toks)) = toks
     \<and> whitespace_tokens (join '' '' toks) = toks)"
proof (intro conjI)
  show "parsePaneLine line = None \<longleftrightarrow>
       length (split_on CHR '' '' (trim line)) < 3
     \<or> parseInt10 (hd (split_on CHR '' '' (trim line))) = None
     \<or> join '' '' (butlast (tl (split_on CHR '' '' (trim line)))) = []"
    unfolding parsePaneLine_eq Let_def by simp
  show "parsePaneLine line = Some r \<longrightarrow>
       parseInt10 (hd (split_on CHR '' '' (trim line))) = Some (PaneInfo.pid r)
     \<and> PaneInfo.command r = last (split_on CHR '' '' (trim line))
     \<and> PaneInfo.cwd r = join '' '' (butlast (tl (split_on CHR '' '' (trim line))))"
    unfolding parsePaneLine_eq Let_def by (auto split: if_splits)
  show "join '' '' (split_on CHR '' '' (trim line)) = trim line"
    by (rule join_split_on)
  show "\<forall>part\<in>set (split_on CHR '' '' (trim line)). CHR '' '' \<notin> set part"
    using split_on_no_sep by blast
  show "toks \<noteq> [] \<and> (\<forall>tok\<in>set toks. tok \<noteq> [] \<and> (\<forall>c\<in>set tok. \<not> is_whitespace c)) \<longrightarrow>
       split_on CHR '' '' (trim (join '' '' toks)) = toks
     \<and> whitespace_tokens (join '' '' toks) = toks"
    using well_formed_parts [of toks] by blast
qed

theorem parsePaneLine_single_space_parts_witness:
  "\<exists>r. parsePaneLine ''12345 /Users/dev/my project claude'' = Some r
      \<and> PaneInfo.pid r = 12345
      \<and> PaneInfo.cwd r = ''/Users/dev/my project''
      \<and> PaneInfo.command r = ''claude''"
proof -
  let ?line = "''12345 /Users/dev/my project claude''"
  have t: "trim ?line = ?line"
    by (simp add: trim_def is_whitespace_def)
  have p: "split_on CHR '' '' ?line = [''12345'', ''/Users/dev/my'', ''project'', ''claude'']"
    by simp
  have i: "parseInt10 ''12345'' = Some 12345"
    by (simp add: parseInt10_def is_whitespace_def is_digit_def digit_value_def Let_def)
  have "parsePaneLine ?line \<noteq> None"
    using parsePaneLine_single_space_parts [of ?line] by (simp add: t p i)
  then obtain r where r: "parsePaneLine ?line = Some r" by blast
  then show ?thesis
    using parsePaneLine_single_space_parts [of ?line r] by (simp add: t p i)
qed

text \<open>
  Claim C5, as stated, fails on the line \<^verbatim>\<open>"1   claude"\<close> (three spaces): it has two
  whitespace-separated tokens, and what lies between the first and the last part is empty
  after trimming, yet the parser accepts it, with the CWD \<^verbatim>\<open>" "\<close>.
\<close>

theorem parsePaneLine_whitespace_counterexample:
  "length (whitespace_tokens ''1   claude'') < 3
   \<and> trim (join '' '' (butlast (tl (split_on CHR '' '' (trim ''1   claude''))))) = []
   \<and> parsePaneLine ''1   claude'' = Some \<lparr> PaneInfo.pid = 1, cwd = '' '', command = ''claude'' \<rparr>"
  by (simp add: whitespace_tokens_def parse_eval)

section \<open>TmuxDiscovery: the discovery pass\<close>

lemma scan_panes_find:
  "scan_panes name now lines =
     (case find qualifies lines of None \<Rightarrow> None
      | Some line \<Rightarrow> Some (hd (session_of_line name now line)))"
  by (induction lines) (auto simp: qualifies_def session_of_line_def split: option.splits)

lemma scan_panes_group:
  "(case scan_panes name now lines of None \<Rightarrow> [] | Some found \<Rightarrow> [found])
     = (case find qualifies lines of None \<Rightarrow> [] | Some line \<Rightarrow> session_of_line name now line)"
  by (induction lines) (auto simp: qualifies_def session_of_line_def split: option.splits)

lemma find_qualifies: "find qualifies lines = Some line \<Longrightarrow> qualifies line"
  by (auto simp: find_Some_iff)

lemma discover_loop_step:
  "discover_loop w k (name # rest) acc = discover_loop w (Suc k) rest (acc @ group_sessions w k name)"
proof (cases "exec w k (list_panes_command name)")
  case (Inl error)
  then show ?thesis by (simp add: group_sessions_def)
next
  case (Inr stdout)
  let ?lines = "split_on CHR 0x0A (trim stdout)"
  show ?thesis
  proof (cases "scan_panes name (Date_now w k) ?lines")
    case None
    then have "group_sessions w k name = []"
      using scan_panes_group [of name "Date_now w k" ?lines] Inr
      by (simp add: group_sessions_def)
    then show ?thesis using Inr None by simp
  next
    case (Some found)
    then have "group_sessions w k name = [found]"
      using scan_panes_group [of name "Date_now w k" ?lines] Inr
      by (simp add: group_sessions_def)
    then show ?thesis using Inr Some by simp
  qed
qed

lemma discover_loop_concat:
  "discover_loop w k names acc
     = acc @ concat (map (\<lambda>(i, name). group_sessions w i name) (enumerate k names))"
proof (induction names arbitrary: k acc)
  case Nil
  then show ?case by simp
next
  case (Cons name names)
  show ?case
    unfolding discover_loop_step Cons.IH by simp
qed

lemma group_sessions_length: "length (group_sessions w k name) \<le> 1"
  by (simp add: group_sessions_def session_of_line_def split: sum.splits option.splits)

lemma group_sessions_tmuxSession: "s \<in> set (group_sessions w k name) \<Longrightarrow> tmuxSession s = name"
  by (auto simp: group_sessions_def session_of_line_def split: sum.splits option.splits)

lemma subseq_groups:
  "subseq (map tmuxSession (concat (map (\<lambda>(i, name). group_sessions w i name) (enumerate k names)))) names"
proof (induction names arbitrary: k)
  case Nil
  then show ?case by simp
next
  case (Cons name names)
  have "group_sessions w k name = [] \<or> (\<exists>s. group_sessions w k name = [s] \<and> tmuxSession s = name)"
    using group_sessions_length [of w k name] group_sessions_tmuxSession [of _ w k name]
    by (cases "group_sessions w k name") auto
  then show ?case using Cons.IH [of "Suc k"] by auto
qed

lemma scan_panes_break:
  assumes "qualifies line" and "\<forall>l\<in>set before. \<not> qualifies l"
  shows "scan_panes name now (before @ line # later) = scan_panes name now (before @ [line])"
  using assms by (induction before) (auto simp: qualifies_def split: option.splits)

lemma find_first_qualifying:
  "qualifies line \<Longrightarrow> \<forall>l\<in>set before. \<not> qualifies l \<Longrightarrow>
   find qualifies (before @ line # later) = Some line"
  by (induction before) simp_all

lemma qualifies_parsed:
  "qualifies line \<Longrightarrow>
   \<exists>parsed. parsePaneLine line = Some parsed
     \<and> (PaneInfo.command parsed = ''claude'' \<or> PaneInfo.command parsed = ''codex'')"
  by (cases "parsePaneLine line") (simp_all add: qualifies_def)


lemma scan_panes_first:
  assumes "qualifies line" and "\<forall>l\<in>set before. \<not> qualifies l"
  shows "\<exists>found. scan_panes sessionName now (before @ line # later) = Some found
            \<and> session_of_line sessionName now line = [found]
            \<and> (command found = ''claude'' \<or> command found = ''codex'')"
proof -
  from qualifies_parsed [OF assms(1)] obtain parsed where p: "parsePaneLine line = Some parsed"
    and c: "PaneInfo.command parsed = ''claude'' \<or> PaneInfo.command parsed = ''codex''"
    by blast
  have s: "session_of_line sessionName now line
             = [\<lparr> tmuxSession = sessionName, command = PaneInfo.command parsed,
                  cwd = PaneInfo.cwd parsed, pid = Some (PaneInfo.pid parsed),
                  discoveredAt = now \<rparr>]"
    by (simp add: session_of_line_def p)
  have "scan_panes sessionName now (before @ line # later)
          = Some \<lparr> tmuxSession = sessionName, command = PaneInfo.command parsed,
                  cwd = PaneInfo.cwd parsed, pid = Some (PaneInfo.pid parsed),
                  discoveredAt = now \<rparr>"
    by (simp add: scan_panes_find find_first_qualifying [OF assms] s)
  then show ?thesis using s c by simp
qed

lemma discoverClaudeSessions_concat:
  assumes "exec w 0 list_sessions_command = Inr stdout"
  shows "discoverClaudeSessions w
         = concat (map (\<lambda>(k, sessionName). group_sessions w k sessionName)
                       (enumerate 1 (session_names stdout)))"
  using assms by (simp add: discoverClaudeSessions_def discover_loop_concat)


text \<open>
  Claim C6.  A discovery pass whose query for the tmux sessions fails, or yields no
  session name, returns the empty list.  Otherwise the result is the concatenation, in
  the order of the listing, of what each listed session contributes: nothing when the
  query for its panes fails, and otherwise at most one record, made from the first of its
  lines that the parser accepts with the command \<^verbatim>\<open>claude\<close> or \<^verbatim>\<open>codex\<close>; the lines after
  that one do not change the result.
\<close>

theorem discoverClaudeSessions_outcomes:
  "(exec w0 0 list_sessions_command = Inl e \<longrightarrow> discoverClaudeSessions w0 = [])
 \<and> (exec w 0 list_sessions_command = Inr stdout \<longrightarrow>
       (session_names stdout = [] \<longrightarrow> discoverClaudeSessions w = [])
     \<and> discoverClaudeSessions w
         = concat (map (\<lambda>(k, sessionName). group_sessions w k sessionName)
                       (enumerate 1 (session_names stdout)))
     \<and> subseq (map tmuxSession (discoverClaudeSessions w)) (session_names stdout))
 \<and> (exec w k (list_panes_command sessionName) = Inl e' \<longrightarrow> group_sessions w k sessionName = [])
 \<and> length (group_sessions w k sessionName) \<le> 1
 \<and> (exec w k (list_panes_command sessionName) = Inr out \<longrightarrow>
       group_sessions w k sessionName
         = (case find qualifies (split_on CHR 0x0A (trim out)) of
              None \<Rightarrow> []
            | Some line \<Rightarrow> session_of_line sessionName (Date_now w k) line))
 \<and> (qualifies line \<and> (\<forall>l\<in>set before. \<not> qualifies l) \<longrightarrow>
       scan_panes sessionName now (before @ line # later) = scan_panes sessionName now (before @ [line])
     \<and> (\<exists>found. scan_panes sessionName now (before @ line # later) = Some found
            \<and> session_of_line sessionName now line = [found]
            \<and> (command found = ''claude'' \<or> command found = ''codex'')))"
proof -
  have 1: "exec w0 0 list_sessions_command = Inl e \<longrightarrow> discoverClaudeSessions w0 = []"
    by (simp add: discoverClaudeSessions_def)
  have 2: "exec w 0 list_sessions_command = Inr stdout \<longrightarrow>
       (session_names stdout = [] \<longrightarrow> discoverClaudeSessions w = [])
     \<and> discoverClaudeSessions w
         = concat (map (\<lambda>(k, sessionName). group_sessions w k sessionName)
                       (enumerate 1 (session_names stdout)))
     \<and> subseq (map tmuxSession (discoverClaudeSessions w)) (session_names stdout)"
  proof
    assume ok: "exec w 0 list_sessions_command = Inr stdout"
    note d = discoverClaudeSessions_concat [OF ok]
    have "session_names stdout = [] \<longrightarrow> discoverClaudeSessions w = []"
      unfolding d by simp
    moreover have "subseq (map tmuxSession (discoverClaudeSessions w)) (session_names stdout)"
      unfolding d by (rule subseq_groups)
    ultimately show "(session_names stdout = [] \<longrightarrow> discoverClaudeSessions w = [])
     \<and> discoverClaudeSessions w
         = concat (map (\<lambda>(k, sessionName). group_sessions w k sessionName)
                       (enumerate 1 (session_names stdout)))
     \<and> subseq (map tmuxSession (discoverClaudeSessions w)) (session_names stdout)"
      using d by blast
  qed
  have 3: "exec w k (list_panes_command sessionName) = Inl e' \<longrightarrow> group_sessions w k sessionName = []"
    by (simp add: group_sessions_def)
  have 4: "length (group_sessions w k sessionName) \<le> 1"
    by (rule group_sessions_length)
  have 5: "exec w k (list_panes_command sessionName) = Inr out \<longrightarrow>
       group_sessions w k sessionName
         = (case find qualifies (split_on CHR 0x0A (trim out)) of
              None \<Rightarrow> []
            | Some line \<Rightarrow> session_of_line sessionName (Date_now w k) line)"
    by (simp add: group_sessions_def)
  have 6: "qualifies line \<and> (\<forall>l\<in>set before. \<not> qualifies l) \<longrightarrow>
       scan_panes sessionName now (before @ line # later) = scan_panes sessionName now (before @ [line])
     \<and> (\<exists>found. scan_panes sessionName now (before @ line # later) = Some found
            \<and> session_of_line sessionName now line = [found]
            \<and> (command found = ''claude'' \<or> command found = ''codex''))"
    using scan_panes_break [of line before sessionName now later]
      scan_panes_first [of line before sessionName now later]
    by blast
  from 1 2 3 4 5 6 show ?thesis by (intro conjI)
qed

lemma tmux_example_exec:
  "exec tmux_example k list_sessions_command = Inr ''claude\<newline>dev\<newline>gone\<newline>codex\<newline>''"
  "exec tmux_example k (list_panes_command ''claude'')
     = Inr ''99 /home/a zsh\<newline>100 /home/a claude\<newline>101 /home/z codex\<newline>''"
  "exec tmux_example k (list_panes_command ''dev'') = Inr ''200 /home/b zsh\<newline>''"
  "exec tmux_example k (list_panes_command ''gone'') = Inl (ExecException ''can't find session'')"
  "exec tmux_example k (list_panes_command ''codex'') = Inr ''300 /home/c codex\<newline>''"
  by (simp_all add: tmux_example_def list_sessions_command_def list_panes_command_def)

lemma tmux_example_lines:
  "session_names ''claude\<newline>dev\<newline>gone\<newline>codex\<newline>'' = [''claude'', ''dev'', ''gone'', ''codex'']"
  by (simp add: session_names_def trim_def is_whitespace_def)

lemma pane_lines:
  "split_on CHR 0x0A (trim ''99 /home/a zsh\<newline>100 /home/a claude\<newline>101 /home/z codex\<newline>'')
     = [''99 /home/a zsh'', ''100 /home/a claude'', ''101 /home/z codex'']"
  "split_on CHR 0x0A (trim ''200 /home/b zsh\<newline>'') = [''200 /home/b zsh'']"
  "split_on CHR 0x0A (trim ''300 /home/c codex\<newline>'') = [''300 /home/c codex'']"
  by (simp_all add: trim_def is_whitespace_def)

lemma pane_parses:
  "parsePaneLine ''99 /home/a zsh'' = Some \<lparr> PaneInfo.pid = 99, cwd = ''/home/a'', command = ''zsh'' \<rparr>"
  "parsePaneLine ''100 /home/a claude'' = Some \<lparr> PaneInfo.pid = 100, cwd = ''/home/a'', command = ''claude'' \<rparr>"
  "parsePaneLine ''200 /home/b zsh'' = Some \<lparr> PaneInfo.pid = 200, cwd = ''/home/b'', command = ''zsh'' \<rparr>"
  "parsePaneLine ''300 /home/c codex'' = Some \<lparr> PaneInfo.pid = 300, cwd = ''/home/c'', command = ''codex'' \<rparr>"
  by (simp_all add: parse_eval)

lemma pane_qualifies:
  "\<not> qualifies ''99 /home/a zsh''"
  "qualifies ''100 /home/a claude''"
  "\<not> qualifies ''200 /home/b zsh''"
  "qualifies ''300 /home/c codex''"
  by (simp_all add: qualifies_def pane_parses)

lemma tmux_example_groups:
  "group_sessions tmux_example k ''claude''
     = [\<lparr> tmuxSession = ''claude'', command = ''claude'', cwd = ''/home/a'', pid = Some 100,
          discoveredAt = 1000 + int k \<rparr>]"
  "group_sessions tmux_example k ''dev'' = []"
  "group_sessions tmux_example k ''gone'' = []"
  "group_sessions tmux_example k ''codex''
     = [\<lparr> tmuxSession = ''codex'', command = ''codex'', cwd = ''/home/c'', pid = Some 300,
          discoveredAt = 1000 + int k \<rparr>]"
  unfolding group_sessions_def tmux_example_exec
  by (simp_all add: pane_lines pane_qualifies session_of_line_def pane_parses tmux_example_def)

theorem discoverClaudeSessions_outcomes_witness:
  "discoverClaudeSessions tmux_missing = []
   \<and> discoverClaudeSessions tmux_example
       = [\<lparr> tmuxSession = ''claude'', command = ''claude'', cwd = ''/home/a'', pid = Some 100,
            discoveredAt = 1001 \<rparr>,
          \<lparr> tmuxSession = ''codex'', command = ''codex'', cwd = ''/home/c'', pid = Some 300,
            discoveredAt = 1004 \<rparr>]
   \<and> exec tmux_example 3 (list_panes_command ''gone'') = Inl (ExecException ''can't find session'')
   \<and> group_sessions tmux_example 3 ''gone'' = []
   \<and> scan_panes ''claude'' 1001 [''99 /home/a zsh'', ''100 /home/a claude'', ''101 /home/z codex'']
       = scan_panes ''claude'' 1001 [''99 /home/a zsh'', ''100 /home/a claude'']"
proof -
  have m: "exec tmux_missing 0 list_sessions_command = Inl (ExecException ''spawn tmux ENOENT'')"
    by (simp add: tmux_missing_def)
  note t = discoverClaudeSessions_outcomes [of tmux_missing "ExecException ''spawn tmux ENOENT''"
      tmux_example "''claude\<newline>dev\<newline>gone\<newline>codex\<newline>''" 3 "''gone''"
      "ExecException ''can't find session''"]
  have d: "discoverClaudeSessions tmux_missing = []"
    using t m by blast
  have e: "discoverClaudeSessions tmux_example
         = concat (map (\<lambda>(k, sessionName). group_sessions tmux_example k sessionName)
                       (enumerate 1 (session_names ''claude\<newline>dev\<newline>gone\<newline>codex\<newline>'')))"
    using t tmux_example_exec(1) by blast
  have g: "group_sessions tmux_example 3 ''gone'' = []"
    using t tmux_example_exec(4) by blast
  have b': "scan_panes ''claude'' 1001 [''99 /home/a zsh'', ''100 /home/a claude'', ''101 /home/z codex'']
       = scan_panes ''claude'' 1001 [''99 /home/a zsh'', ''100 /home/a claude'']"
    by (simp add: pane_parses)
  show ?thesis
    using d g b' tmux_example_exec(4)
    by (simp add: e tmux_example_lines tmux_example_groups)
qed

section \<open>AgentHierarchy: the walk to the root\<close>

lemma ancestry_loop:
  "ancestry h cur as \<Longrightarrow> ancestors_loop h (Some cur) acc = Some (acc @ as)"
proof (induction arbitrary: acc rule: ancestry.induct)
  case (ancestry_root cur h)
  then show ?case by (subst ancestors_loop.simps) simp
next
  case (ancestry_empty cur h)
  then show ?case by (subst ancestors_loop.simps) simp
next
  case (ancestry_broken cur p h)
  then show ?case by (subst ancestors_loop.simps) simp
next
  case (ancestry_step cur p h parent rest)
  show ?case
    by (subst ancestors_loop.simps) (simp add: ancestry_step.hyps ancestry_step.IH)
qed

lemma ranked_ancestry:
  assumes "ranked h rank B"
  shows "nodes h x = Some cur \<Longrightarrow>
         \<exists>as. ancestry h cur as
            \<and> (\<forall>a\<in>set as. rank (sessionId a) < rank x \<and> nodes h (sessionId a) = Some a)"
proof (induction "rank x" arbitrary: x cur rule: less_induct)
  case less
  show ?case
  proof (cases "parentId cur")
    case None
    then have "ancestry h cur []" by (rule ancestry_root)
    then show ?thesis by auto
  next
    case (Some p)
    from assms less.prems Some obtain parent where
      parent: "nodes h p = Some parent" and lt: "rank p < rank x"
      unfolding ranked_def by blast
    from assms parent have sid: "sessionId parent = p"
      unfolding ranked_def by blast
    show ?thesis
    proof (cases "p = []")
      case True
      then have "ancestry h cur []" using Some by (simp add: ancestry_empty)
      then show ?thesis by auto
    next
      case False
      from less.hyps [OF lt parent] obtain rest where
        rest: "ancestry h parent rest"
        and below: "\<forall>a\<in>set rest. rank (sessionId a) < rank p \<and> nodes h (sessionId a) = Some a"
        by blast
      have "ancestry h cur (parent # rest)"
        using Some False parent rest by (rule ancestry_step)
      moreover have "\<forall>a\<in>set (parent # rest). rank (sessionId a) < rank x \<and> nodes h (sessionId a) = Some a"
        using below lt parent sid by auto
      ultimately show ?thesis by blast
    qed
  qed
qed

section \<open>AgentHierarchy: the invariant of the reachable states\<close>

lemma ranked_new: "ranked new_AgentHierarchy (\<lambda>x. 0) 0"
  by (simp add: ranked_def new_AgentHierarchy_def)

lemma ranked_clear: "ranked (clear h) (\<lambda>x. 0) 0"
  by (simp add: ranked_def clear_def)

lemma ranked_markCompleted:
  assumes "ranked h rank B"
  shows "ranked (markCompleted h sid now) rank B"
proof (cases "nodes h sid")
  case None
  then show ?thesis using assms by (simp add: markCompleted_def)
next
  case (Some node)
  have n: "nodes (markCompleted h sid now) = (nodes h)(sid \<mapsto> node \<lparr> completedAt := Some now \<rparr>)"
    and c: "childrenMap (markCompleted h sid now) = childrenMap h"
    using Some by (simp_all add: markCompleted_def)
  show ?thesis
    unfolding ranked_def n c
    using assms Some unfolding ranked_def
    by (auto split: if_splits)
qed

lemma ranked_addRoot_fresh:
  assumes "ranked h rank B" and "nodes h sid = None"
  shows "ranked (addRoot h sid now) (rank(sid := B)) (Suc B)"
proof -
  have n: "nodes (addRoot h sid now) = (nodes h)(sid \<mapsto>
             \<lparr> sessionId = sid, parentId = None, toolUseId = None, description = None,
               subagentType = None, spawnedAt = now, completedAt = None \<rparr>)"
    and c: "childrenMap (addRoot h sid now) = childrenMap h"
    using assms(2) by (simp_all add: addRoot_def)
  have nochild: "childrenMap h sid = None"
    using assms unfolding ranked_def by blast
  have noparent: "parentId n \<noteq> Some sid" if "nodes h x = Some n" for x n
    using assms that unfolding ranked_def by force
  show ?thesis
    unfolding ranked_def n c
    using assms nochild noparent unfolding ranked_def
    by (auto split: if_splits simp: less_Suc_eq)
qed

lemma ranked_addRoot:
  assumes "ranked h rank B"
  shows "\<exists>rank' B'. ranked (addRoot h sid now) rank' B'"
proof (cases "nodes h sid")
  case None
  then show ?thesis using ranked_addRoot_fresh [OF assms] by blast
next
  case (Some node)
  then have "addRoot h sid now = h" by (simp add: addRoot_def)
  then show ?thesis using assms by auto
qed

lemma set_set_add: "set (set_add x xs) = insert x (set xs)"
  by (auto simp: set_add_def)

lemma addRoot_known: "nodes h sid \<noteq> None \<Longrightarrow> addRoot h sid now = h"
  by (simp add: addRoot_def)

lemma addRoot_nodes: "nodes (addRoot h sid now) sid \<noteq> None"
  by (simp add: addRoot_def)

lemma addChild_eq:
  "addChild h parent child options' rootNow now =
     (let h1 = addRoot h parent rootNow;
          node = \<lparr> sessionId = child, parentId = Some parent,
                   toolUseId = Some (AddChildOptions.toolUseId options'),
                   description = AddChildOptions.description options',
                   subagentType = AddChildOptions.subagentType options',
                   spawnedAt = now, completedAt = None \<rparr>
      in h1 \<lparr> nodes := (nodes h1)(child \<mapsto> node),
              childrenMap := (childrenMap h1)(parent \<mapsto>
                 set_add child (case childrenMap h1 parent of None \<Rightarrow> [] | Some ids \<Rightarrow> ids)) \<rparr>)"
  by (cases "nodes h parent") (simp_all add: addChild_def Let_def addRoot_known)

section \<open>AgentHierarchy: the traversal of the descendants\<close>

lemma set_map_filter: "set (List.map_filter f xs) = {y. \<exists>x\<in>set xs. f x = Some y}"
  by (induction xs) (auto simp: List.map_filter_simps split: option.splits)

lemma getChildren_iff:
  "d \<in> set (getChildren h x) \<longleftrightarrow>
     (\<exists>cs c. childrenMap h x = Some cs \<and> c \<in> set cs \<and> nodes h c = Some d)"
  by (cases "childrenMap h x") (auto simp: getChildren_def set_map_filter)

lemma ranked_getChildren:
  assumes "ranked h rank B" and "d \<in> set (getChildren h x)"
  shows "nodes h (sessionId d) = Some d" and "rank x < rank (sessionId d)"
    and "rank (sessionId d) < B"
proof -
  from assms(2) obtain cs c where cs: "childrenMap h x = Some cs" "c \<in> set cs" "nodes h c = Some d"
    unfolding getChildren_iff by blast
  from assms(1) cs(3) have k: "sessionId d = c" and b: "rank c < B"
    unfolding ranked_def by blast+
  show "nodes h (sessionId d) = Some d" using k cs(3) by simp
  show "rank x < rank (sessionId d)"
    using assms(1) cs unfolding ranked_def k by blast
  show "rank (sessionId d) < B" using k b by simp
qed

lemma descendants_loop_closed:
  assumes "descendants_loop h queue acc = Some res"
  shows "set acc \<union> set queue \<subseteq> set res
       \<and> (\<forall>d\<in>set res. d \<in> set acc \<or> set (getChildren h (sessionId d)) \<subseteq> set res)"
  using assms
proof (induction rule: descendants_loop.raw_induct [rotated, consumes 1, case_names step])
  case (step loop h queue acc res)
  note 1 = step
  show ?case
  proof (cases queue)
    case Nil
    then show ?thesis using 1(2) by simp
  next
    case (Cons node rest)
    then have "loop h (rest @ getChildren h (sessionId node)) (acc @ [node]) = Some res"
      using 1(2) by simp
    from 1(1) [OF this] show ?thesis using Cons by auto
  qed
qed

lemma descendants_loop_sound:
  assumes "descendants_loop h queue acc = Some res"
  shows "\<forall>d\<in>set res. d \<in> set acc \<or> d \<in> set queue \<or> (\<exists>x. d \<in> set (getChildren h x))"
  using assms
proof (induction rule: descendants_loop.raw_induct [rotated, consumes 1, case_names step])
  case (step loop h queue acc res)
  note 1 = step
  show ?case
  proof (cases queue)
    case Nil
    then show ?thesis using 1(2) by simp
  next
    case (Cons node rest)
    then have "loop h (rest @ getChildren h (sessionId node)) (acc @ [node]) = Some res"
      using 1(2) by simp
    from 1(1) [OF this] show ?thesis using Cons by auto
  qed
qed

lemma queue_measure_step:
  assumes "ranked h rank B"
  shows "(queue_measure rank B (rest @ getChildren h (sessionId node)),
          queue_measure rank B (node # rest)) \<in> mult {(a, b). a < b}"
proof -
  let ?f = "\<lambda>d. B - rank (sessionId d)"
  let ?I = "mset (map ?f rest)"
  let ?K = "mset (map ?f (getChildren h (sessionId node)))"
  let ?J = "{#?f node#}"
  have "\<forall>k\<in>set_mset ?K. \<exists>j\<in>set_mset ?J. (k, j) \<in> {(a, b). a < b}"
  proof
    fix k assume "k \<in> set_mset ?K"
    then obtain d where d: "d \<in> set (getChildren h (sessionId node))" and k: "k = ?f d"
      by auto
    from ranked_getChildren(2,3) [OF assms d] have "k < ?f node" unfolding k by arith
    then show "\<exists>j\<in>set_mset ?J. (k, j) \<in> {(a, b). a < b}" by simp
  qed
  then have "(?I + ?K, ?I + ?J) \<in> mult {(a, b). a < b}"
    by (intro one_step_implies_mult) simp_all
  then show ?thesis by (simp add: queue_measure_def)
qed

lemma descendants_loop_terminates:
  assumes "ranked h rank B"
  shows "\<exists>res. descendants_loop h queue acc = Some res"
proof -
  have wf: "wf (inv_image (mult {(a::nat, b). a < b}) (queue_measure rank B))"
    by (intro wf_inv_image wf_mult) (rule wf_less)
  show ?thesis
  proof (induction queue arbitrary: acc rule: wf_induct_rule [OF wf])
    case (1 queue)
    show ?case
    proof (cases queue)
      case Nil
      then show ?thesis by (subst descendants_loop.simps) simp
    next
      case (Cons node rest)
      have "(rest @ getChildren h (sessionId node), queue)
              \<in> inv_image (mult {(a, b). a < b}) (queue_measure rank B)"
        unfolding Cons using queue_measure_step [OF assms] by simp
      from 1 [OF this, of "acc @ [node]"] show ?thesis
        by (subst descendants_loop.simps) (simp add: Cons)
    qed
  qed
qed

lemma getDescendants_terminates:
  "ranked h rank B \<Longrightarrow> \<exists>res. getDescendants h sid = Some res"
  unfolding getDescendants_def by (rule descendants_loop_terminates)

lemma getDescendants_closed:
  assumes "getDescendants h sid = Some ds"
  shows "set (getChildren h sid) \<subseteq> set ds"
    and "d \<in> set ds \<Longrightarrow> set (getChildren h (sessionId d)) \<subseteq> set ds"
  using descendants_loop_closed [OF assms [unfolded getDescendants_def]] by auto

lemma foldl_delete_descendant:
  "nodes (foldl delete_descendant h ds) x
     = (if x \<in> sessionId ` set ds then None else nodes h x)"
  "childrenMap (foldl delete_descendant h ds) x
     = (if x \<in> sessionId ` set ds then None else childrenMap h x)"
  by (induction ds arbitrary: h) (auto simp: delete_descendant_def)

lemma remove_session_nodes:
  assumes "remove_session h sid = Some h'" and "getDescendants h sid = Some ds"
  shows "nodes h' x = (if x = sid \<or> x \<in> sessionId ` set ds then None else nodes h x)"
  using assms
  by (auto simp: remove_session_def Let_def foldl_delete_descendant split: option.splits if_splits)

lemma remove_session_childrenMap:
  assumes "remove_session h sid = Some h'" and "getDescendants h sid = Some ds"
    and "childrenMap h' x = Some cs'"
  shows "x \<noteq> sid \<and> x \<notin> sessionId ` set ds
       \<and> (\<exists>cs. childrenMap h x = Some cs \<and> (cs' = cs \<or> cs' = set_delete sid cs))"
  using assms
  by (auto simp: remove_session_def Let_def foldl_delete_descendant split: option.splits if_splits)

lemma remove_session_former_parent:
  assumes "remove_session h sid = Some h'" and "getDescendants h sid = Some ds"
    and "nodes h sid = Some node" and "parentId node = Some p" and "p \<noteq> []"
    and "sid \<notin> sessionId ` set ds"
    and "childrenMap h' p = Some cs'"
  shows "sid \<notin> set cs'"
  using assms
  by (auto simp: remove_session_def Let_def foldl_delete_descendant set_delete_def
      split: option.splits if_splits)

lemma remove_session_unknown:
  assumes "getDescendants h sid = Some []" and "nodes h sid = None" and "childrenMap h sid = None"
  shows "remove_session h sid = Some h"
  using assms by (simp add: remove_session_def fun_upd_idem)

lemma remove_session_childrenMap_keep:
  assumes "remove_session h sid = Some h'" and "getDescendants h sid = Some ds"
    and "x \<noteq> sid" and "x \<notin> sessionId ` set ds" and "childrenMap h x = Some cs"
  shows "\<exists>cs'. childrenMap h' x = Some cs' \<and> (cs' = cs \<or> cs' = set_delete sid cs)"
  using assms
  by (auto simp: remove_session_def Let_def foldl_delete_descendant split: option.splits if_splits)

lemma descendants_loop_rank:
  assumes "descendants_loop h queue acc = Some res" and "ranked h rank B"
  shows "\<forall>d\<in>set res. d \<in> set acc \<or> (\<exists>e\<in>set queue. rank (sessionId e) \<le> rank (sessionId d))"
  using assms
proof (induction rule: descendants_loop.raw_induct [rotated, consumes 1, case_names step])
  case (step loop h queue acc res)
  show ?case
  proof (cases queue)
    case Nil
    then show ?thesis using step(2) by simp
  next
    case (Cons node rest)
    then have "loop h (rest @ getChildren h (sessionId node)) (acc @ [node]) = Some res"
      using step(2) by simp
    from step(1) [OF this step(3)] have ih:
      "\<forall>d\<in>set res. d \<in> set (acc @ [node])
          \<or> (\<exists>e\<in>set (rest @ getChildren h (sessionId node)). rank (sessionId e) \<le> rank (sessionId d))" .
    show ?thesis
    proof
      fix d assume "d \<in> set res"
      with ih consider "d \<in> set acc" | "d = node"
        | e where "e \<in> set rest" "rank (sessionId e) \<le> rank (sessionId d)"
        | e where "e \<in> set (getChildren h (sessionId node))" "rank (sessionId e) \<le> rank (sessionId d)"
        by auto
      then show "d \<in> set acc \<or> (\<exists>e\<in>set queue. rank (sessionId e) \<le> rank (sessionId d))"
      proof cases
        case 4
        from ranked_getChildren(2) [OF step(3) 4(1)] 4(2)
        have "rank (sessionId node) \<le> rank (sessionId d)" by simp
        then show ?thesis using Cons by auto
      qed (auto simp: Cons)
    qed
  qed
qed

lemma getDescendants_rank:
  assumes "ranked h rank B" and "getDescendants h sid = Some ds" and "d \<in> set ds"
  shows "rank sid < rank (sessionId d)"
proof -
  from descendants_loop_rank [OF assms(2) [unfolded getDescendants_def] assms(1)] assms(3)
  obtain e where e: "e \<in> set (getChildren h sid)" "rank (sessionId e) \<le> rank (sessionId d)"
    by auto
  from ranked_getChildren(2) [OF assms(1) e(1)] e(2) show ?thesis by simp
qed

lemma getDescendants_not_self:
  assumes "ranked h rank B" and "getDescendants h sid = Some ds"
  shows "sid \<notin> sessionId ` set ds"
  using getDescendants_rank [OF assms] by auto

lemma getDescendants_child_closed:
  assumes r: "ranked h rank B" and ds: "getDescendants h sid = Some ds"
    and x: "nodes h x = Some n" and p: "parentId n = Some p"
    and removed: "p = sid \<or> p \<in> sessionId ` set ds"
  shows "x \<in> sessionId ` set ds"
proof -
  from r x p obtain cs where cs: "childrenMap h p = Some cs" "x \<in> set cs"
    unfolding ranked_def by blast
  from r x have k: "sessionId n = x" unfolding ranked_def by blast
  have child: "n \<in> set (getChildren h p)"
    unfolding getChildren_iff using cs x by blast
  have "n \<in> set ds"
  proof (cases "p = sid")
    case True
    then show ?thesis using getDescendants_closed(1) [OF ds] child by auto
  next
    case False
    then obtain d where d: "d \<in> set ds" "p = sessionId d" using removed by auto
    then show ?thesis using getDescendants_closed(2) [OF ds d(1)] child by auto
  qed
  then show ?thesis using k by force
qed

lemma getDescendants_leaf: "getChildren h n = [] \<Longrightarrow> getDescendants h n = Some []"
  unfolding getDescendants_def by (subst descendants_loop.simps) simp

lemma getDescendants_present:
  assumes "ranked h rank B" and "getDescendants h sid = Some ds" and "d \<in> set ds"
  shows "nodes h (sessionId d) = Some d"
proof -
  from descendants_loop_sound [OF assms(2) [unfolded getDescendants_def]] assms(3)
  obtain x where "d \<in> set (getChildren h x)" by auto
  then show ?thesis using ranked_getChildren(1) [OF assms(1)] by blast
qed

lemma getDescendants_listed_closed:
  assumes r: "ranked h rank B" and ds: "getDescendants h sid = Some ds"
    and q: "q = sid \<or> q \<in> sessionId ` set ds"
    and cs: "childrenMap h q = Some cs" and x: "x \<in> set cs" and present: "nodes h x \<noteq> None"
  shows "x \<in> sessionId ` set ds"
proof -
  from present obtain n where n: "nodes h x = Some n" by blast
  from r n have k: "sessionId n = x" unfolding ranked_def by blast
  have child: "n \<in> set (getChildren h q)"
    unfolding getChildren_iff using cs x n by blast
  have "n \<in> set ds"
  proof (cases "q = sid")
    case True
    then show ?thesis using getDescendants_closed(1) [OF ds] child by auto
  next
    case False
    then obtain d where d: "d \<in> set ds" "q = sessionId d" using q by auto
    then show ?thesis using getDescendants_closed(2) [OF ds d(1)] child by auto
  qed
  then show ?thesis using k by force
qed

lemma ranked_reparent:
  assumes r: "ranked h rank B"
    and p: "nodes h parent \<noteq> None"
    and ne: "child \<noteq> parent"
    and ds: "getDescendants h child = Some ds"
    and notdesc: "parent \<notin> sessionId ` set ds"
    and n: "sessionId node = child" "parentId node = Some parent"
  shows "ranked (h \<lparr> nodes := (nodes h)(child \<mapsto> node),
                     childrenMap := (childrenMap h)(parent \<mapsto>
                        set_add child (case childrenMap h parent of None \<Rightarrow> [] | Some ids \<Rightarrow> ids)) \<rparr>)
                (\<lambda>x. if x = child then B
                     else if x \<in> sessionId ` set ds then rank x + B + 1 else rank x)
                (2 * B + 2)"
proof -
  let ?S = "sessionId ` set ds"
  let ?rank = "\<lambda>x. if x = child then B else if x \<in> ?S then rank x + B + 1 else rank x"
  let ?cs0 = "case childrenMap h parent of None \<Rightarrow> [] | Some ids \<Rightarrow> ids"
  let ?h = "h \<lparr> nodes := (nodes h)(child \<mapsto> node),
                childrenMap := (childrenMap h)(parent \<mapsto> set_add child ?cs0) \<rparr>"
  have below: "rank x < B" if "nodes h x \<noteq> None" for x
    using r that unfolding ranked_def by blast
  have key: "sessionId m = x" if "nodes h x = Some m" for x m
    using r that unfolding ranked_def by blast
  have par: "nodes h q \<noteq> None \<and> (\<exists>cs. childrenMap h q = Some cs \<and> x \<in> set cs)"
    if "nodes h x = Some m" "parentId m = Some q" for x m q
    using r that unfolding ranked_def by blast
  have edge: "rank q < rank x" if "childrenMap h q = Some cs" "x \<in> set cs" "nodes h x \<noteq> None" for q cs x
    using r that unfolding ranked_def by blast
  have dom: "nodes h q \<noteq> None" if "childrenMap h q \<noteq> None" for q
    using r that unfolding ranked_def by blast
  have self: "child \<notin> ?S" using r ds by (rule getDescendants_not_self)
  have above: "rank child < rank x" if "x \<in> ?S" for x
    using getDescendants_rank [OF r ds] that by auto
  have closed: "x \<in> ?S" if "q = child \<or> q \<in> ?S" "childrenMap h q = Some cs" "x \<in> set cs"
    "nodes h x \<noteq> None" for q cs x
    using getDescendants_listed_closed [OF r ds] that by blast
  have fresh: "?S = {}" if "nodes h child = None"
  proof -
    from that have "childrenMap h child = None" using dom by blast
    then have "getDescendants h child = Some []"
      by (intro getDescendants_leaf) (simp add: getChildren_def)
    then show ?thesis using ds by simp
  qed
  have nodes': "nodes ?h x = (if x = child then Some node else nodes h x)" for x
    by simp
  have cm': "childrenMap ?h q = (if q = parent then Some (set_add child ?cs0) else childrenMap h q)" for q
    by simp
  have old_edge: "\<exists>cs. childrenMap h q = Some cs \<and> x \<in> set cs"
    if "childrenMap ?h q = Some cs'" "x \<in> set cs'" "x \<noteq> child" for q cs' x
    using that by (cases "q = parent") (auto simp: set_set_add split: option.splits)
  have q_present: "nodes h q \<noteq> None" if "childrenMap ?h q = Some cs'" for q cs'
    using that p dom by (cases "q = parent") auto
  have edge': "?rank q < ?rank x"
    if cm: "childrenMap ?h q = Some cs'" and x: "x \<in> set cs'" and present: "nodes ?h x \<noteq> None"
    for q cs' x
  proof (cases "x = child")
    case True
    have qh: "nodes h q \<noteq> None" using cm by (rule q_present)
    have "q \<noteq> child \<and> q \<notin> ?S"
    proof (cases "q = parent")
      case True
      then show ?thesis using ne notdesc by simp
    next
      case False
      then obtain cs where cs: "childrenMap h q = Some cs" "child \<in> set cs"
        using cm x \<open>x = child\<close> by auto
      show ?thesis
      proof (cases "nodes h child")
        case None
        then show ?thesis using fresh qh by auto
      next
        case (Some m)
        then have "rank q < rank child" using edge [OF cs] by simp
        then show ?thesis using above [of q] by auto
      qed
    qed
    then show ?thesis using True below [OF qh] by simp
  next
    case False
    then have xh: "nodes h x \<noteq> None" using present by simp
    from old_edge [OF cm x False] obtain cs where cs: "childrenMap h q = Some cs" "x \<in> set cs"
      by blast
    have lt: "rank q < rank x" using edge [OF cs xh] .
    show ?thesis
    proof (cases "q = child \<or> q \<in> ?S")
      case True
      then have "x \<in> ?S" using closed cs xh by blast
      then show ?thesis using True False lt by auto
    next
      case False
      then show ?thesis using \<open>x \<noteq> child\<close> lt by simp
    qed
  qed
  show ?thesis
    unfolding ranked_def
  proof (intro conjI allI impI)
    fix x m assume "nodes ?h x = Some m"
    then have x: "(x = child \<and> m = node) \<or> (x \<noteq> child \<and> nodes h x = Some m)"
      by (auto split: if_splits)
    then show "sessionId m = x" using n(1) key by auto
    from x have "x = child \<or> rank x < B" using below by auto
    then show "?rank x < 2 * B + 2" by auto
  next
    fix x m q assume xm: "nodes ?h x = Some m" and q: "parentId m = Some q"
    then have x: "(x = child \<and> m = node) \<or> (x \<noteq> child \<and> nodes h x = Some m)"
      by (auto split: if_splits)
    have qx: "nodes h q \<noteq> None \<and> (\<exists>cs. childrenMap ?h q = Some cs \<and> x \<in> set cs)"
    proof (cases "x = child")
      case True
      then have "q = parent" using x q n(2) by auto
      then show ?thesis using True p by (simp add: set_set_add)
    next
      case False
      then have "nodes h x = Some m" using x by simp
      from par [OF this q] show ?thesis
        by (cases "q = parent") (auto simp: set_set_add)
    qed
    then show "nodes ?h q \<noteq> None" by simp
    from qx obtain cs where cs: "childrenMap ?h q = Some cs" "x \<in> set cs" by blast
    then show "\<exists>cs. childrenMap ?h q = Some cs \<and> x \<in> set cs" by blast
    have "nodes ?h x \<noteq> None" using xm by simp
    from edge' [OF cs this] show "?rank q < ?rank x" .
  next
    fix q cs x assume "childrenMap ?h q = Some cs" "x \<in> set cs" "nodes ?h x \<noteq> None"
    then show "?rank q < ?rank x" by (rule edge')
  next
    fix q assume "childrenMap ?h q \<noteq> None"
    then obtain cs where "childrenMap ?h q = Some cs" by blast
    from q_present [OF this] show "nodes ?h q \<noteq> None" by simp
  qed
qed

lemma ranked_addChild:
  assumes "ranked h rank B" and "child \<noteq> parent"
    and "getDescendants (addRoot h parent rootNow) child = Some ds"
    and "parent \<notin> sessionId ` set ds"
  shows "\<exists>rank' B'. ranked (addChild h parent child options' rootNow now) rank' B'"
proof -
  define h1 where "h1 = addRoot h parent rootNow"
  define node where "node = \<lparr> sessionId = child, parentId = Some parent,
                   toolUseId = Some (AddChildOptions.toolUseId options'),
                   description = AddChildOptions.description options',
                   subagentType = AddChildOptions.subagentType options',
                   spawnedAt = now, completedAt = None \<rparr>"
  obtain rank1 B1 where r1: "ranked h1 rank1 B1"
    unfolding h1_def using ranked_addRoot [OF assms(1)] by blast
  have p1: "nodes h1 parent \<noteq> None"
    unfolding h1_def by (rule addRoot_nodes)
  have n: "sessionId node = child" "parentId node = Some parent"
    by (simp_all add: node_def)
  have eq: "addChild h parent child options' rootNow now =
              h1 \<lparr> nodes := (nodes h1)(child \<mapsto> node),
                   childrenMap := (childrenMap h1)(parent \<mapsto>
                     set_add child (case childrenMap h1 parent of None \<Rightarrow> [] | Some ids \<Rightarrow> ids)) \<rparr>"
    unfolding addChild_eq Let_def h1_def node_def ..
  show ?thesis
    unfolding eq
    using ranked_reparent [OF r1 p1 assms(2) assms(3) [folded h1_def] assms(4) n] by blast
qed

lemma fresh_child_descendants:
  assumes "ranked h rank B" and "nodes h child = None" and "child \<noteq> parent"
  shows "getDescendants (addRoot h parent rootNow) child = Some []"
proof -
  from ranked_addRoot [OF assms(1)] obtain rank1 B1 where
    r1: "ranked (addRoot h parent rootNow) rank1 B1" by blast
  have "nodes (addRoot h parent rootNow) child = None"
    using assms(2,3) by (simp add: addRoot_def)
  then have "childrenMap (addRoot h parent rootNow) child = None"
    using r1 unfolding ranked_def by blast
  then show ?thesis
    by (intro getDescendants_leaf) (simp add: getChildren_def)
qed

lemma ranked_remove:
  assumes r: "ranked h rank B" and rm: "remove_session h sid = Some h'"
  shows "ranked h' rank B"
proof -
  from rm obtain ds where ds: "getDescendants h sid = Some ds"
    by (auto simp: remove_session_def split: option.splits)
  note N = remove_session_nodes [OF rm ds]
  note C = remove_session_childrenMap [OF rm ds]
  note K = remove_session_childrenMap_keep [OF rm ds]
  show ?thesis
    unfolding ranked_def
  proof (intro conjI allI impI)
    fix x n assume "nodes h' x = Some n"
    then have "nodes h x = Some n" unfolding N by (auto split: if_splits)
    then show "sessionId n = x" "rank x < B" using r unfolding ranked_def by blast+
  next
    fix x n p assume x': "nodes h' x = Some n" and p: "parentId n = Some p"
    from x' have x: "nodes h x = Some n" and xs: "x \<noteq> sid" and xd: "x \<notin> sessionId ` set ds"
      unfolding N by (auto split: if_splits)
    from r x p obtain cs where ph: "nodes h p \<noteq> None" and lt: "rank p < rank x"
      and cs: "childrenMap h p = Some cs" "x \<in> set cs"
      unfolding ranked_def by blast
    have keep: "p \<noteq> sid \<and> p \<notin> sessionId ` set ds"
      using getDescendants_child_closed [OF r ds x p] xd by blast
    then show "nodes h' p \<noteq> None" unfolding N using ph by simp
    show "rank p < rank x" by (rule lt)
    from K [of p cs] keep cs(1) obtain cs' where
      cs': "childrenMap h' p = Some cs'" "cs' = cs \<or> cs' = set_delete sid cs"
      by blast
    then have "x \<in> set cs'" using cs(2) xs by (auto simp: set_delete_def)
    then show "\<exists>cs. childrenMap h' p = Some cs \<and> x \<in> set cs" using cs'(1) by blast
  next
    fix p cs' c assume cm: "childrenMap h' p = Some cs'" and c: "c \<in> set cs'"
      and present: "nodes h' c \<noteq> None"
    from C [OF cm] obtain cs where cs: "childrenMap h p = Some cs" "cs' = cs \<or> cs' = set_delete sid cs"
      by blast
    then have "c \<in> set cs" using c by (auto simp: set_delete_def)
    moreover have "nodes h c \<noteq> None" using present unfolding N by (auto split: if_splits)
    ultimately show "rank p < rank c" using r cs(1) unfolding ranked_def by blast
  next
    fix p assume "childrenMap h' p \<noteq> None"
    then obtain cs' where cm: "childrenMap h' p = Some cs'" by blast
    from C [OF cm] have "p \<noteq> sid" "p \<notin> sessionId ` set ds" "childrenMap h p \<noteq> None" by auto
    then show "nodes h' p \<noteq> None" unfolding N using r unfolding ranked_def by auto
  qed
qed

lemma managed_ranked: "managed h \<Longrightarrow> \<exists>rank B. ranked h rank B"
proof (induction rule: managed.induct)
  case managed_new
  then show ?case using ranked_new by blast
next
  case (managed_addRoot h sid now)
  then show ?case using ranked_addRoot by blast
next
  case (managed_addChild h child parent rootNow ds options' now)
  then show ?case using ranked_addChild by blast
next
  case (managed_markCompleted h sid now)
  then show ?case using ranked_markCompleted by blast
next
  case (managed_remove h sid h')
  then show ?case using ranked_remove by blast
next
  case (managed_clear h)
  then show ?case using ranked_clear by blast
qed

lemma built_managed: "built h \<Longrightarrow> managed h"
  by (induction rule: built.induct) (auto intro: managed.intros)

lemma managed_addChild_fresh:
  assumes "managed h" and "nodes h child = None" and "child \<noteq> parent"
  shows "managed (addChild h parent child options' rootNow now)"
proof -
  from assms(1) obtain rank B where "ranked h rank B" using managed_ranked by blast
  from fresh_child_descendants [OF this assms(2,3)]
  have "getDescendants (addRoot h parent rootNow) child = Some []" .
  with assms(1,3) show ?thesis by (rule managed_addChild) simp
qed

lemma built_addChild_fresh:
  assumes "built h" and "nodes h child = None" and "child \<noteq> parent"
  shows "built (addChild h parent child options' rootNow now)"
proof -
  from assms(1) obtain rank B where "ranked h rank B"
    using built_managed managed_ranked by blast
  from fresh_child_descendants [OF this assms(2,3)]
  have "getDescendants (addRoot h parent rootNow) child = Some []" .
  with assms(1,3) show ?thesis by (rule built_addChild) simp
qed

section \<open>AgentHierarchy: the claims\<close>

lemma ancestors_loop_cycle:
  assumes "ancestors_loop h current acc = Some res"
    and "\<forall>cur\<in>S. \<exists>p parent. parentId cur = Some p \<and> p \<noteq> [] \<and> nodes h p = Some parent \<and> parent \<in> S"
  shows "\<forall>cur. current = Some cur \<longrightarrow> cur \<notin> S"
  using assms
proof (induction rule: ancestors_loop.raw_induct [rotated, consumes 1, case_names step])
  case (step loop h current acc res)
  show ?case
  proof (intro allI impI notI)
    fix cur assume cur: "current = Some cur" and "cur \<in> S"
    with step(3) obtain p parent where
      p: "parentId cur = Some p" "p \<noteq> []" "nodes h p = Some parent" "parent \<in> S"
      by blast
    then have "loop h (Some parent) (acc @ [parent]) = Some res"
      using step(2) cur by simp
    from step(1) [OF this step(3)] p(4) show False by simp
  qed
qed

lemma ancestors_loop_diverges:
  assumes "\<forall>cur\<in>S. \<exists>p parent. parentId cur = Some p \<and> p \<noteq> [] \<and> nodes h p = Some parent \<and> parent \<in> S"
    and "cur \<in> S"
  shows "ancestors_loop h (Some cur) acc = None"
proof (cases "ancestors_loop h (Some cur) acc")
  case None
  then show ?thesis .
next
  case (Some res)
  from ancestors_loop_cycle [OF Some assms(1)] assms(2) show ?thesis by simp
qed

lemma descendants_loop_cycle:
  assumes "descendants_loop h queue acc = Some res"
    and "\<forall>node\<in>S. \<exists>c\<in>set (getChildren h (sessionId node)). c \<in> S"
  shows "set queue \<inter> S = {}"
  using assms
proof (induction rule: descendants_loop.raw_induct [rotated, consumes 1, case_names step])
  case (step loop h queue acc res)
  show ?case
  proof (cases queue)
    case Nil
    then show ?thesis by simp
  next
    case (Cons node rest)
    then have "loop h (rest @ getChildren h (sessionId node)) (acc @ [node]) = Some res"
      using step(2) by simp
    from step(1) [OF this step(3)] have
      "set rest \<inter> S = {}" "set (getChildren h (sessionId node)) \<inter> S = {}" by auto
    moreover from this(2) step(3) have "node \<notin> S" by blast
    ultimately show ?thesis using Cons by simp
  qed
qed

lemma descendants_loop_diverges:
  assumes "\<forall>node\<in>S. \<exists>c\<in>set (getChildren h (sessionId node)). c \<in> S"
    and "set queue \<inter> S \<noteq> {}"
  shows "descendants_loop h queue acc = None"
proof (cases "descendants_loop h queue acc")
  case None
  then show ?thesis .
next
  case (Some res)
  from descendants_loop_cycle [OF Some assms(1)] assms(2) show ?thesis by simp
qed

lemma getAncestors_absent: "nodes h x = None \<Longrightarrow> getAncestors h x = Some []"
  unfolding getAncestors_def by (subst ancestors_loop.simps) simp

lemma getAncestors_ancestry:
  "nodes h x = Some cur \<Longrightarrow> ancestry h cur as \<Longrightarrow> getAncestors h x = Some as"
  unfolding getAncestors_def using ancestry_loop [of h cur as "[]"] by simp

lemma getAncestors_ranked:
  assumes "ranked h rank B"
  shows "\<exists>as. getAncestors h x = Some as \<and> x \<notin> sessionId ` set as
          \<and> (case getParent h x of
                None \<Rightarrow> as = []
              | Some parent \<Rightarrow> \<exists>rest. as = parent # rest \<and> getAncestors h (sessionId parent) = Some rest)"
proof (cases "nodes h x")
  case None
  then show ?thesis by (simp add: getAncestors_absent getParent_def)
next
  case (Some cur)
  from ranked_ancestry [OF assms Some] obtain as where
    as: "ancestry h cur as"
    and below: "\<forall>a\<in>set as. rank (sessionId a) < rank x \<and> nodes h (sessionId a) = Some a"
    by blast
  have g: "getAncestors h x = Some as" using Some as by (rule getAncestors_ancestry)
  have notin: "x \<notin> sessionId ` set as" using below by auto
  from as have "case getParent h x of
                None \<Rightarrow> as = []
              | Some parent \<Rightarrow> \<exists>rest. as = parent # rest \<and> getAncestors h (sessionId parent) = Some rest"
  proof (cases rule: ancestry.cases)
    case ancestry_root
    then show ?thesis using Some by (simp add: getParent_def)
  next
    case ancestry_empty
    then show ?thesis using Some by (simp add: getParent_def)
  next
    case (ancestry_broken p)
    then show ?thesis using Some by (simp add: getParent_def)
  next
    case (ancestry_step p parent rest)
    have "nodes h (sessionId parent) = Some parent"
      using below ancestry_step(1) by simp
    then have "getAncestors h (sessionId parent) = Some rest"
      using ancestry_step(5) by (rule getAncestors_ancestry)
    then show ?thesis using Some ancestry_step by (simp add: getParent_def)
  qed
  then show ?thesis using g notin by blast
qed

text \<open>
  Claim C1, as amended.  In every state built by \<^verbatim>\<open>addRoot\<close> and \<^verbatim>\<open>addChild\<close> calls of
  which no \<^verbatim>\<open>addChild\<close> makes a session a child of itself or of one of its own
  descendants (the states \<^const>\<open>built\<close>), \<^verbatim>\<open>getAncestors(x)\<close> returns, its result does not
  contain the node of \<open>x\<close>, and \<^verbatim>\<open>getDepth(x)\<close> is the length of that result.
\<close>

theorem built_forest:
  assumes "built h"
  shows "\<exists>as. getAncestors h x = Some as \<and> x \<notin> sessionId ` set as
            \<and> getDepth h x = Some (length as)"
proof -
  from assms have "managed h" by (rule built_managed)
  then obtain rank B where "ranked h rank B" using managed_ranked by blast
  from getAncestors_ranked [OF this, of x] show ?thesis
    by (auto simp: getDepth_def)
qed


text \<open>
  Claim C3, as amended.  In every state reached by \<^verbatim>\<open>addRoot\<close>, \<^verbatim>\<open>markCompleted\<close>,
  \<^verbatim>\<open>remove\<close>, \<^verbatim>\<open>clear\<close> and \<^verbatim>\<open>addChild\<close> calls of which no \<^verbatim>\<open>addChild\<close> makes a session a
  child of itself or of one of its own descendants (the states \<^const>\<open>managed\<close>),
  \<^verbatim>\<open>remove(n)\<close> returns; afterwards \<^verbatim>\<open>has(n)\<close> is false, \<^verbatim>\<open>has(d)\<close> is false for every node
  \<open>d\<close> that \<^verbatim>\<open>getDescendants(n)\<close> listed before the call, no \<^verbatim>\<open>getChildren\<close> result contains
  \<open>n\<close>, the children set of the former parent of \<open>n\<close> no longer holds \<open>n\<close>, every node that
  is neither \<open>n\<close> nor one of those descendants is unchanged, and for an unknown \<open>n\<close> the
  state is unchanged.
\<close>

theorem remove_managed:
  assumes "managed h"
  shows "\<exists>h' ds. remove_session h n = Some h' \<and> getDescendants h n = Some ds
       \<and> \<not> has h' n
       \<and> (\<forall>d\<in>set ds. \<not> has h' (sessionId d))
       \<and> (\<forall>q. n \<notin> sessionId ` set (getChildren h' q))
       \<and> (\<forall>node p cs. nodes h n = Some node \<and> parentId node = Some p \<and> p \<noteq> []
              \<and> childrenMap h' p = Some cs \<longrightarrow> n \<notin> set cs)
       \<and> (\<forall>x. x \<noteq> n \<and> x \<notin> sessionId ` set ds \<longrightarrow> getNode h' x = getNode h x)
       \<and> (\<not> has h n \<longrightarrow> h' = h)"
proof -
  from assms obtain rank B where r: "ranked h rank B" using managed_ranked by blast
  from getDescendants_terminates [OF r] obtain ds where ds: "getDescendants h n = Some ds"
    by blast
  then obtain h' where rm: "remove_session h n = Some h'"
    by (simp add: remove_session_def Let_def)
  note N = remove_session_nodes [OF rm ds]
  have r': "ranked h' rank B" using r rm by (rule ranked_remove)
  have 1: "\<not> has h' n" by (simp add: has_def N)
  have 2: "\<forall>d\<in>set ds. \<not> has h' (sessionId d)" by (simp add: has_def N)
  have 3: "\<forall>q. n \<notin> sessionId ` set (getChildren h' q)"
  proof (intro allI notI)
    fix q assume "n \<in> sessionId ` set (getChildren h' q)"
    then obtain d where d: "d \<in> set (getChildren h' q)" "sessionId d = n" by auto
    from ranked_getChildren(1) [OF r' d(1)] show False using d(2) by (simp add: N)
  qed
  have 4: "\<forall>node p cs. nodes h n = Some node \<and> parentId node = Some p \<and> p \<noteq> []
              \<and> childrenMap h' p = Some cs \<longrightarrow> n \<notin> set cs"
    using remove_session_former_parent [OF rm ds _ _ _ getDescendants_not_self [OF r ds]]
    by blast
  have 5: "\<forall>x. x \<noteq> n \<and> x \<notin> sessionId ` set ds \<longrightarrow> getNode h' x = getNode h x"
    by (simp add: getNode_def N)
  have 6: "\<not> has h n \<longrightarrow> h' = h"
  proof
    assume "\<not> has h n"
    then have n: "nodes h n = None" by (simp add: has_def)
    then have c: "childrenMap h n = None" using r unfolding ranked_def by blast
    then have "getDescendants h n = Some []"
      by (intro getDescendants_leaf) (simp add: getChildren_def)
    from remove_session_unknown [OF this n c] rm show "h' = h" by simp
  qed
  from rm ds 1 2 3 4 5 6 show ?thesis by blast
qed

section \<open>AgentHierarchy: examples\<close>

lemmas hierarchy_eval = addChild_def addRoot_def new_AgentHierarchy_def Let_def set_add_def
  spawn_def agent_def

lemma family_nodes:
  "nodes family = [''root'' \<mapsto> agent ''root'' None 1, ''child'' \<mapsto> agent ''child'' (Some ''root'') 3,
                   ''grandchild'' \<mapsto> agent ''grandchild'' (Some ''child'') 5,
                   ''other'' \<mapsto> agent ''other'' (Some ''root'') 7]"
  by (simp add: family_def hierarchy_eval)

lemma family_childrenMap:
  "childrenMap family = [''root'' \<mapsto> [''child'', ''other''], ''child'' \<mapsto> [''grandchild'']]"
  by (auto simp: family_def hierarchy_eval)

lemma family_built: "built family"
proof -
  let ?h0 = "addRoot (addRoot new_AgentHierarchy ''root'' 1) ''child'' 2"
  let ?h1 = "addChild ?h0 ''root'' ''child'' spawn 2 3"
  let ?h2 = "addChild ?h1 ''child'' ''grandchild'' spawn 4 5"
  have b0: "built ?h0" by (intro built.intros)
  have "getChildren (addRoot ?h0 ''root'' 2) ''child'' = []"
    by (simp add: getChildren_def hierarchy_eval)
  then have "getDescendants (addRoot ?h0 ''root'' 2) ''child'' = Some []"
    by (rule getDescendants_leaf)
  then have b1: "built ?h1"
    by (intro built_addChild [OF b0, where ds = "[]"]) simp_all
  have b2: "built ?h2"
    by (intro built_addChild_fresh [OF b1]) (simp_all add: hierarchy_eval)
  show ?thesis
    unfolding family_def
    by (intro built_addChild_fresh [OF b2]) (simp_all add: hierarchy_eval)
qed

lemma family_ancestors:
  "getAncestors family ''grandchild'' = Some [agent ''child'' (Some ''root'') 3, agent ''root'' None 1]"
  by (simp add: getAncestors_def family_nodes ancestors_loop.simps agent_def)

theorem built_forest_witness:
  "built family
   \<and> getAncestors family ''grandchild'' = Some [agent ''child'' (Some ''root'') 3, agent ''root'' None 1]
   \<and> ''grandchild'' \<notin> sessionId ` set [agent ''child'' (Some ''root'') 3, agent ''root'' None 1]
   \<and> getDepth family ''grandchild'' = Some 2"
  using built_forest [OF family_built, of "''grandchild''"] family_built family_ancestors
  by auto

text \<open>
  Claim C1, as stated, fails after the single call \<^verbatim>\<open>addChild('a', 'a', ...)\<close> on a new
  tracker: \<open>a\<close> is its own parent, and \<^verbatim>\<open>getAncestors('a')\<close> and \<^verbatim>\<open>getDepth('a')\<close> never
  return.
\<close>

theorem addChild_self_parent_counterexample:
  "has (addChild new_AgentHierarchy ''a'' ''a'' spawn 1 2) ''a''
   \<and> getParent (addChild new_AgentHierarchy ''a'' ''a'' spawn 1 2) ''a''
       = getNode (addChild new_AgentHierarchy ''a'' ''a'' spawn 1 2) ''a''
   \<and> getAncestors (addChild new_AgentHierarchy ''a'' ''a'' spawn 1 2) ''a'' = None
   \<and> getDepth (addChild new_AgentHierarchy ''a'' ''a'' spawn 1 2) ''a'' = None"
proof -
  let ?h = "addChild new_AgentHierarchy ''a'' ''a'' spawn 1 2"
  have n: "nodes ?h = [''a'' \<mapsto> agent ''a'' (Some ''a'') 2]"
    by (simp add: hierarchy_eval)
  have p: "parentId (agent ''a'' (Some ''a'') 2) = Some ''a''"
    by (simp add: agent_def)
  have "ancestors_loop ?h (Some (agent ''a'' (Some ''a'') 2)) [] = None"
    by (rule ancestors_loop_diverges [where S = "{agent ''a'' (Some ''a'') 2}"])
       (simp_all add: n p)
  then have "getAncestors ?h ''a'' = None"
    by (simp add: getAncestors_def n)
  then show ?thesis
    by (simp add: getDepth_def has_def getParent_def getNode_def n p)
qed


text \<open>
  Claim C3, as stated, fails after \<^verbatim>\<open>addRoot('root')\<close>, \<^verbatim>\<open>addChild('root', 'child', ...)\<close>
  and \<^verbatim>\<open>addChild('child', 'root', ...)\<close>: the children index has a cycle, the traversal of
  \<^verbatim>\<open>getDescendants('root')\<close> never ends, and \<^verbatim>\<open>remove('root')\<close> never returns.
\<close>

theorem remove_cycle_counterexample:
  "remove_session
     (addChild (addChild (addRoot new_AgentHierarchy ''root'' 1) ''root'' ''child'' spawn 2 3)
        ''child'' ''root'' spawn 4 5) ''root'' = None"
proof -
  let ?h = "addChild (addChild (addRoot new_AgentHierarchy ''root'' 1) ''root'' ''child'' spawn 2 3)
        ''child'' ''root'' spawn 4 5"
  have n: "nodes ?h = [''child'' \<mapsto> agent ''child'' (Some ''root'') 3,
                       ''root'' \<mapsto> agent ''root'' (Some ''child'') 5]"
    by (simp add: hierarchy_eval)
  have c: "childrenMap ?h = [''root'' \<mapsto> [''child''], ''child'' \<mapsto> [''root'']]"
    by (auto simp: hierarchy_eval)
  have g: "getChildren ?h ''root'' = [agent ''child'' (Some ''root'') 3]"
          "getChildren ?h ''child'' = [agent ''root'' (Some ''child'') 5]"
    by (simp_all add: getChildren_def n c List.map_filter_simps)
  have s: "sessionId (agent ''child'' (Some ''root'') 3) = ''child''"
          "sessionId (agent ''root'' (Some ''child'') 5) = ''root''"
    by (simp_all add: agent_def)
  have "descendants_loop ?h (getChildren ?h ''root'') [] = None"
    by (rule descendants_loop_diverges
          [where S = "{agent ''child'' (Some ''root'') 3, agent ''root'' (Some ''child'') 5}"])
       (auto simp: g s)
  then show ?thesis
    by (simp add: remove_session_def getDescendants_def)
qed

lemma family_managed: "managed family"
  using family_built by (rule built_managed)


lemma family_getChildren:
  "getChildren family ''child'' = [agent ''grandchild'' (Some ''child'') 5]"
  "getChildren family ''grandchild'' = []"
  by (simp_all add: getChildren_def family_nodes family_childrenMap List.map_filter_simps)

lemma agent_sessionId: "sessionId (agent sid parent now) = sid"
  by (simp add: agent_def)

lemma family_descendants:
  "getDescendants family ''child'' = Some [agent ''grandchild'' (Some ''child'') 5]"
  unfolding getDescendants_def family_getChildren
  apply (subst descendants_loop.simps)
  apply (simp add: agent_sessionId family_getChildren)
  apply (subst descendants_loop.simps)
  apply simp
  done

theorem remove_managed_witness:
  "\<exists>h'. remove_session family ''child'' = Some h'
       \<and> \<not> has h' ''child'' \<and> \<not> has h' ''grandchild''
       \<and> ''child'' \<notin> sessionId ` set (getChildren h' ''root'')
       \<and> getNode h' ''root'' = Some (agent ''root'' None 1)
       \<and> getNode h' ''other'' = Some (agent ''other'' (Some ''root'') 7)
       \<and> remove_session family ''unknown'' = Some family"
proof -
  from remove_managed [OF family_managed, of "''child''"] obtain h' ds where
    t: "remove_session family ''child'' = Some h' \<and> getDescendants family ''child'' = Some ds
       \<and> \<not> has h' ''child''
       \<and> (\<forall>d\<in>set ds. \<not> has h' (sessionId d))
       \<and> (\<forall>q. ''child'' \<notin> sessionId ` set (getChildren h' q))
       \<and> (\<forall>node p cs. nodes family ''child'' = Some node \<and> parentId node = Some p \<and> p \<noteq> []
              \<and> childrenMap h' p = Some cs \<longrightarrow> ''child'' \<notin> set cs)
       \<and> (\<forall>x. x \<noteq> ''child'' \<and> x \<notin> sessionId ` set ds \<longrightarrow> getNode h' x = getNode family x)
       \<and> (\<not> has family ''child'' \<longrightarrow> h' = family)"
    by (elim exE) (rule that)
  note rm = t [THEN conjunct1]
    and ds = t [THEN conjunct2, THEN conjunct1]
    and gone = t [THEN conjunct2, THEN conjunct2, THEN conjunct1]
    and gone' = t [THEN conjunct2, THEN conjunct2, THEN conjunct2, THEN conjunct1]
    and children = t [THEN conjunct2, THEN conjunct2, THEN conjunct2, THEN conjunct2,
        THEN conjunct1]
    and same = t [THEN conjunct2, THEN conjunct2, THEN conjunct2, THEN conjunct2,
        THEN conjunct2, THEN conjunct2, THEN conjunct1]
  from ds have ds': "ds = [agent ''grandchild'' (Some ''child'') 5]"
    by (simp add: family_descendants)
  have g: "\<not> has h' ''grandchild''"
    using gone' [unfolded ds'] by (simp add: agent_sessionId)
  have "getNode h' ''root'' = getNode family ''root''"
    using same [rule_format, of "''root''"] by (simp add: ds' agent_sessionId)
  then have r: "getNode h' ''root'' = Some (agent ''root'' None 1)"
    by (simp add: getNode_def family_nodes)
  have "getNode h' ''other'' = getNode family ''other''"
    using same [rule_format, of "''other''"] by (simp add: ds' agent_sessionId)
  then have o: "getNode h' ''other'' = Some (agent ''other'' (Some ''root'') 7)"
    by (simp add: getNode_def family_nodes)
  from remove_managed [OF family_managed, of "''unknown''"] obtain h'' ds'' where
    u: "remove_session family ''unknown'' = Some h'' \<and> getDescendants family ''unknown'' = Some ds''
       \<and> \<not> has h'' ''unknown''
       \<and> (\<forall>d\<in>set ds''. \<not> has h'' (sessionId d))
       \<and> (\<forall>q. ''unknown'' \<notin> sessionId ` set (getChildren h'' q))
       \<and> (\<forall>node p cs. nodes family ''unknown'' = Some node \<and> parentId node = Some p \<and> p \<noteq> []
              \<and> childrenMap h'' p = Some cs \<longrightarrow> ''unknown'' \<notin> set cs)
       \<and> (\<forall>x. x \<noteq> ''unknown'' \<and> x \<notin> sessionId ` set ds'' \<longrightarrow> getNode h'' x = getNode family x)
       \<and> (\<not> has family ''unknown'' \<longrightarrow> h'' = family)"
    by (elim exE) (rule that)
  from u [THEN conjunct1]
    u [THEN conjunct2, THEN conjunct2, THEN conjunct2, THEN conjunct2, THEN conjunct2,
       THEN conjunct2, THEN conjunct2]
  have u': "remove_session family ''unknown'' = Some family"
    by (simp add: has_def family_nodes)
  have c: "''child'' \<notin> sessionId ` set (getChildren h' ''root'')"
    using children by (rule spec)
  show ?thesis
    by (rule exI [of _ h']) (simp only: rm gone g c r o u' simp_thms)
qed

end
